theory Spec2Isabelle
  imports Main "HOL-Library.Sublist"
begin

section \<open>Text: Python strings as lists of code points\<close>

text \<open>
  A Python \<open>str\<close> is a sequence of Unicode code points, modelled as a list of naturals.
  The character tables below are those of the interpreter's Unicode database, tabulated
  for U+0000..U+00FF, U+0130, U+0307, U+3002 and every white-space code point. White space
  (\<open>str.isspace\<close>, \<open>\s\<close>) is tabulated completely; alphanumerics and case mappings
  outside the tabulated range are not modelled (such a code point counts as a caseless
  non-word character).
\<close>

type_synonym cp = nat
type_synonym ustr = "cp list"

definition asc :: "string \<Rightarrow> ustr" where
  "asc = map of_char"

definition is_space :: "cp \<Rightarrow> bool" where
  "is_space c = ((9 \<le> c \<and> c \<le> 13) \<or> (28 \<le> c \<and> c \<le> 32) \<or> c = 133 \<or> c = 160
     \<or> c = 5760 \<or> (8192 \<le> c \<and> c \<le> 8202) \<or> c = 8232 \<or> c = 8233 \<or> c = 8239
     \<or> c = 8287 \<or> c = 12288)"

definition is_decimal :: "cp \<Rightarrow> bool" where
  "is_decimal c = (48 \<le> c \<and> c \<le> 57)"

definition is_alnum :: "cp \<Rightarrow> bool" where
  "is_alnum c = ((48 \<le> c \<and> c \<le> 57) \<or> (65 \<le> c \<and> c \<le> 90) \<or> (97 \<le> c \<and> c \<le> 122)
     \<or> c = 170 \<or> c = 178 \<or> c = 179 \<or> c = 181 \<or> c = 185 \<or> c = 186
     \<or> (188 \<le> c \<and> c \<le> 190) \<or> (192 \<le> c \<and> c \<le> 214) \<or> (216 \<le> c \<and> c \<le> 246)
     \<or> (248 \<le> c \<and> c \<le> 255) \<or> c = 304)"

definition is_word :: "cp \<Rightarrow> bool" where
  "is_word c = (is_alnum c \<or> c = 95)"

text \<open>The simple lower-case mapping, used by the regex engine under \<open>re.I\<close>.\<close>

definition to_lower :: "cp \<Rightarrow> cp" where
  "to_lower c = (if (65 \<le> c \<and> c \<le> 90) \<or> (192 \<le> c \<and> c \<le> 214) \<or> (216 \<le> c \<and> c \<le> 222)
                 then c + 32 else if c = 304 then 105 else c)"

text \<open>The full lower-case mapping of \<open>str.lower\<close>: U+0130 becomes two code points.\<close>

definition lower_full :: "cp \<Rightarrow> ustr" where
  "lower_full c = (if c = 304 then [105, 775] else [to_lower c])"

definition py_lower :: "ustr \<Rightarrow> ustr" where
  "py_lower s = concat (map lower_full s)"

definition lstrip :: "ustr \<Rightarrow> ustr" where
  "lstrip s = dropWhile is_space s"

definition rstrip :: "ustr \<Rightarrow> ustr" where
  "rstrip s = rev (dropWhile is_space (rev s))"

definition py_strip :: "ustr \<Rightarrow> ustr" where
  "py_strip s = rstrip (lstrip s)"

text \<open>\<open>sub in s\<close> on strings.\<close>

fun contains :: "ustr \<Rightarrow> ustr \<Rightarrow> bool" where
  "contains sub [] = (sub = [])"
| "contains sub (x # xs) = (prefix sub (x # xs) \<or> contains sub xs)"

text \<open>\<open>s.replace(a, b)\<close> for single characters.\<close>

definition replace_char :: "cp \<Rightarrow> cp \<Rightarrow> ustr \<Rightarrow> ustr" where
  "replace_char a b s = map (\<lambda>c. if c = a then b else c) s"

section \<open>The regular expressions of the source\<close>

text \<open>
  The fragment of Python's \<open>re\<close> that the source uses: literals, character classes,
  sequence, ordered alternation, greedy \<open>?\<close>, greedy and lazy repetition of a single
  character class, \<open>\b\<close>, and one capturing group. Matching is backtracking; the
  matcher returns every way to match from a position, in the engine's order of
  preference, so the engine's answer is the head of the list.
\<close>

datatype cclass =
    Ch cp
  | Word
  | Space
  | Digit
  | OneOf "cp list"
  | Union cclass cclass
  | Dot
  | DotAll

datatype regex =
    Lit ustr
  | Cls cclass
  | Seq regex regex
  | Alt regex regex
  | Opt regex
  | Star cclass
  | LazyStar cclass
  | Plus cclass
  | Bnd
  | Grp regex

text \<open>The first argument of the matching functions is the \<open>re.I\<close> flag.\<close>

fun cmatch :: "bool \<Rightarrow> cclass \<Rightarrow> cp \<Rightarrow> bool" where
  "cmatch ic (Ch c) x = (if ic then to_lower x = to_lower c else x = c)"
| "cmatch ic Word x = is_word x"
| "cmatch ic Space x = is_space x"
| "cmatch ic Digit x = is_decimal x"
| "cmatch ic (OneOf cs) x = (if ic then to_lower x \<in> to_lower ` set cs else x \<in> set cs)"
| "cmatch ic (Union a b) x = (cmatch ic a x \<or> cmatch ic b x)"
| "cmatch ic Dot x = (x \<noteq> 10)"
| "cmatch ic DotAll x = True"

text \<open>
  A position in the subject: the character before it (if any) and the text from it on.
  A matcher state adds the text captured by group 1.
\<close>

type_synonym pos = "cp option \<times> ustr"
type_synonym mstate = "cp option \<times> ustr \<times> ustr option"

definition word_before :: "cp option \<Rightarrow> bool" where
  "word_before p = (case p of None \<Rightarrow> False | Some c \<Rightarrow> is_word c)"

definition word_after :: "ustr \<Rightarrow> bool" where
  "word_after xs = (case xs of [] \<Rightarrow> False | x # _ \<Rightarrow> is_word x)"

definition at_boundary :: "cp option \<Rightarrow> ustr \<Rightarrow> bool" where
  "at_boundary p xs = (word_before p \<noteq> word_after xs)"

fun lit_match :: "bool \<Rightarrow> ustr \<Rightarrow> cp option \<Rightarrow> ustr \<Rightarrow> pos option" where
  "lit_match ic [] p xs = Some (p, xs)"
| "lit_match ic (c # cs) p [] = None"
| "lit_match ic (c # cs) p (x # xs) =
     (if cmatch ic (Ch c) x then lit_match ic cs (Some x) xs else None)"

fun star_greedy :: "bool \<Rightarrow> cclass \<Rightarrow> cp option \<Rightarrow> ustr \<Rightarrow> pos list" where
  "star_greedy ic k p [] = [(p, [])]"
| "star_greedy ic k p (x # xs) =
     (if cmatch ic k x then star_greedy ic k (Some x) xs else []) @ [(p, x # xs)]"

fun star_lazy :: "bool \<Rightarrow> cclass \<Rightarrow> cp option \<Rightarrow> ustr \<Rightarrow> pos list" where
  "star_lazy ic k p [] = [(p, [])]"
| "star_lazy ic k p (x # xs) =
     (p, x # xs) # (if cmatch ic k x then star_lazy ic k (Some x) xs else [])"

definition one_char :: "bool \<Rightarrow> cclass \<Rightarrow> cp option \<Rightarrow> ustr \<Rightarrow> pos list" where
  "one_char ic k p xs =
     (case xs of [] \<Rightarrow> [] | x # xs' \<Rightarrow> if cmatch ic k x then [(Some x, xs')] else [])"

definition with_group :: "ustr option \<Rightarrow> pos \<Rightarrow> mstate" where
  "with_group g q = (fst q, snd q, g)"

fun rmatch :: "bool \<Rightarrow> regex \<Rightarrow> mstate \<Rightarrow> mstate list" where
  "rmatch ic (Lit cs) (p, xs, g) =
     (case lit_match ic cs p xs of None \<Rightarrow> [] | Some q \<Rightarrow> [with_group g q])"
| "rmatch ic (Cls k) (p, xs, g) = map (with_group g) (one_char ic k p xs)"
| "rmatch ic (Seq a b) st = concat (map (rmatch ic b) (rmatch ic a st))"
| "rmatch ic (Alt a b) st = rmatch ic a st @ rmatch ic b st"
| "rmatch ic (Opt a) st = rmatch ic a st @ [st]"
| "rmatch ic (Star k) (p, xs, g) = map (with_group g) (star_greedy ic k p xs)"
| "rmatch ic (LazyStar k) (p, xs, g) = map (with_group g) (star_lazy ic k p xs)"
| "rmatch ic (Plus k) (p, xs, g) =
     map (with_group g)
       (concat (map (\<lambda>q. star_greedy ic k (fst q) (snd q)) (one_char ic k p xs)))"
| "rmatch ic Bnd (p, xs, g) = (if at_boundary p xs then [(p, xs, g)] else [])"
| "rmatch ic (Grp a) (p, xs, g) =
     map (\<lambda>st. (fst st, fst (snd st), Some (take (length xs - length (fst (snd st))) xs)))
       (rmatch ic a (p, xs, g))"

text \<open>
  The engine's match at a position: the preferred one, as the number of characters it
  consumes and the text of group 1.
\<close>

definition match_here :: "bool \<Rightarrow> regex \<Rightarrow> cp option \<Rightarrow> ustr \<Rightarrow> (nat \<times> ustr option) option" where
  "match_here ic r p xs =
     (case rmatch ic r (p, xs, None) of
        [] \<Rightarrow> None
      | st # _ \<Rightarrow> Some (length xs - length (fst (snd st)), snd (snd st)))"

text \<open>
  \<open>pattern.search\<close>: the leftmost match, as (start, end, group 1).
\<close>

fun search_at :: "bool \<Rightarrow> regex \<Rightarrow> nat \<Rightarrow> cp option \<Rightarrow> ustr \<Rightarrow> (nat \<times> nat \<times> ustr option) option" where
  "search_at ic r i p [] =
     (case match_here ic r p [] of None \<Rightarrow> None | Some (n, g) \<Rightarrow> Some (i, i + n, g))"
| "search_at ic r i p (x # xs) =
     (case match_here ic r p (x # xs) of
        Some (n, g) \<Rightarrow> Some (i, i + n, g)
      | None \<Rightarrow> search_at ic r (Suc i) (Some x) xs)"

definition search :: "bool \<Rightarrow> regex \<Rightarrow> ustr \<Rightarrow> (nat \<times> nat \<times> ustr option) option" where
  "search ic r s = search_at ic r 0 None s"

text \<open>
  \<open>re.sub(pattern, "", text)\<close> and \<open>pattern.split(text)\<close> scan from left to right for
  non-overlapping matches. The second argument counts the characters of the current
  match still to be skipped. No pattern of the source matches the empty string; a
  position whose preferred match is empty is treated as a position without a match.
\<close>

fun sub_scan :: "bool \<Rightarrow> regex \<Rightarrow> nat \<Rightarrow> cp option \<Rightarrow> ustr \<Rightarrow> ustr" where
  "sub_scan ic r k p [] = []"
| "sub_scan ic r (Suc k) p (x # xs) = sub_scan ic r k (Some x) xs"
| "sub_scan ic r 0 p (x # xs) =
     (case match_here ic r p (x # xs) of
        Some (Suc k, g) \<Rightarrow> sub_scan ic r k (Some x) xs
      | _ \<Rightarrow> x # sub_scan ic r 0 (Some x) xs)"

definition re_sub_empty :: "bool \<Rightarrow> regex \<Rightarrow> ustr \<Rightarrow> ustr" where
  "re_sub_empty ic r s = sub_scan ic r 0 None s"

fun split_scan :: "bool \<Rightarrow> regex \<Rightarrow> nat \<Rightarrow> cp option \<Rightarrow> ustr \<Rightarrow> ustr \<Rightarrow> ustr list" where
  "split_scan ic r k p [] cur = [cur]"
| "split_scan ic r (Suc k) p (x # xs) cur = split_scan ic r k (Some x) xs cur"
| "split_scan ic r 0 p (x # xs) cur =
     (case match_here ic r p (x # xs) of
        Some (Suc k, g) \<Rightarrow> cur # split_scan ic r k (Some x) xs []
      | _ \<Rightarrow> split_scan ic r 0 (Some x) xs (cur @ [x]))"

definition re_split :: "bool \<Rightarrow> regex \<Rightarrow> ustr \<Rightarrow> ustr list" where
  "re_split ic r s = split_scan ic r 0 None s []"

definition alts :: "regex list \<Rightarrow> regex" where
  "alts rs = foldr Alt (butlast rs) (last rs)"

definition seqs :: "regex list \<Rightarrow> regex" where
  "seqs rs = foldr Seq (butlast rs) (last rs)"

definition words :: "string list \<Rightarrow> regex" where
  "words ws = alts (map (\<lambda>w. Lit (asc w)) ws)"


text \<open>A compiled pattern: the \<open>re.I\<close> flag and the expression.\<close>

type_synonym pattern = "bool \<times> regex"

definition re_search :: "pattern \<Rightarrow> ustr \<Rightarrow> (nat \<times> nat \<times> ustr option) option" where
  "re_search pat s = search (fst pat) (snd pat) s"

definition found :: "pattern \<Rightarrow> ustr \<Rightarrow> bool" where
  "found pat s = (re_search pat s \<noteq> None)"

section \<open>Keyword router (pipelines/robot/keyword\_router.py)\<close>

datatype pynum = PInt int | PHalf | PFloat ustr
  \<comment> \<open>\<open>PHalf\<close> is the float 0.5; \<open>PFloat s\<close> is \<open>float(s)\<close> of a decimal literal \<open>s\<close>\<close>

datatype pyval = VStr string | VNum pynum

datatype error = ValueError | AttributeError

type_synonym params = "(string \<times> pyval) list"

fun dict_set :: "string \<Rightarrow> pyval \<Rightarrow> params \<Rightarrow> params" where
  "dict_set k v [] = [(k, v)]"
| "dict_set k v ((k', v') # kvs) =
     (if k' = k then (k, v) # kvs else (k', v') # dict_set k v kvs)"

definition WORD_NUMBERS :: "(ustr \<times> pynum) list" where
  "WORD_NUMBERS =
    [(asc ''cero'', PInt 0), (asc ''medio'', PHalf), (asc ''media'', PHalf),
     (asc ''un'', PInt 1), (asc ''uno'', PInt 1), (asc ''una'', PInt 1),
     (asc ''dos'', PInt 2), (asc ''tres'', PInt 3), (asc ''cuatro'', PInt 4),
     (asc ''cinco'', PInt 5), (asc ''seis'', PInt 6), (asc ''siete'', PInt 7),
     (asc ''ocho'', PInt 8), (asc ''nueve'', PInt 9), (asc ''diez'', PInt 10),
     (asc ''quince'', PInt 15), (asc ''veinte'', PInt 20), (asc ''veinticinco'', PInt 25),
     (asc ''treinta'', PInt 30), (asc ''cuarenta'', PInt 40),
     (asc ''cuarenta y cinco'', PInt 45),
     (asc ''cincuenta'', PInt 50), (asc ''sesenta'', PInt 60), (asc ''noventa'', PInt 90),
     (asc ''cien'', PInt 100), (asc ''ciento'', PInt 100),
     (asc ''ciento ochenta'', PInt 180), (asc ''ciento veinte'', PInt 120),
     (asc ''trescientos sesenta'', PInt 360), (asc ''trescientos'', PInt 300)]"

definition DECIMAL :: regex where
  "DECIMAL = Seq (Plus Digit) (Opt (Seq (Cls (OneOf (asc ''.,''))) (Plus Digit)))"

definition DIGIT_NUMBER :: pattern where
  "DIGIT_NUMBER = (False, seqs [Bnd, Grp DECIMAL, Bnd])"

definition FULL_TURN :: pattern where
  "FULL_TURN = (True, seqs [Bnd, Grp (words [''vuelta completa'', ''giro completo'', ''360'']), Bnd])"

definition HALF_TURN :: pattern where
  "HALF_TURN = (True, seqs [Bnd, Grp (Lit (asc ''media vuelta'')), Bnd])"

definition QUARTER_TURN :: pattern where
  "QUARTER_TURN = (True, seqs [Bnd, Grp (Lit (asc ''cuarto de vuelta'')), Bnd])"

definition unit_pattern :: "string \<Rightarrow> pattern" where
  "unit_pattern u =
     (True, seqs [Grp (Seq (Cls Word) (LazyStar (Union Word Space))), Star Space,
                  Lit (asc u), Opt (Lit (asc ''s''))])"

definition METERS_PATTERN :: pattern where
  "METERS_PATTERN = unit_pattern ''metro''"

definition DEGREES_PATTERN :: pattern where
  "DEGREES_PATTERN = unit_pattern ''grado''"

text \<open>
  \<open>float(s)\<close>: the model accepts the decimal literals \<open>digits\<close> and \<open>digits.digits\<close>
  and raises on every other string (Python accepts more, so the model raises at least
  where Python does).
\<close>

definition decimal_literal :: "ustr \<Rightarrow> bool" where
  "decimal_literal s =
     (let a = takeWhile is_decimal s; b = dropWhile is_decimal s
      in a \<noteq> [] \<and> (b = [] \<or> (hd b = 46 \<and> tl b \<noteq> [] \<and> list_all is_decimal (tl b))))"

definition py_float :: "ustr \<Rightarrow> error + pynum" where
  "py_float s = (if decimal_literal s then Inr (PFloat s) else Inl ValueError)"

definition extract_number :: "ustr \<Rightarrow> pattern \<Rightarrow> error + pynum option" where
  "extract_number text pat =
     (case re_search pat text of
        None \<Rightarrow> Inr None
      | Some m \<Rightarrow>
          (case snd (snd m) of
             None \<Rightarrow> Inl AttributeError
           | Some grp \<Rightarrow>
               (let number_str = py_lower (py_strip grp) in
                case map_of WORD_NUMBERS number_str of
                  Some v \<Rightarrow> Inr (Some v)
                | None \<Rightarrow>
                    (case re_search DIGIT_NUMBER number_str of
                       None \<Rightarrow> Inr None
                     | Some dm \<Rightarrow>
                         (case snd (snd dm) of
                            None \<Rightarrow> Inl AttributeError
                          | Some d \<Rightarrow> map_sum id Some (py_float (replace_char 44 46 d)))))))"

record action_result =
  action :: string
  params :: params
  confirmation :: ustr

record router_result =
  matched :: bool
  actions :: "action_result list"

definition kw :: "regex list \<Rightarrow> pattern" where
  "kw rs = (True, seqs [Bnd, Grp (alts rs), Bnd])"

definition w :: "string \<Rightarrow> regex" where
  "w s = Lit (asc s)"

definition TURN_VERBS :: regex where
  "TURN_VERBS = Grp (words [''gira'', ''tuerce'', ''rota'', ''dobla'', ''voltea'',
                            ''da la vuelta'', ''date la vuelta''])"

definition COMMAND_PATTERNS :: "(pattern \<times> string \<times> params \<times> ustr) list" where
  "COMMAND_PATTERNS =
   [(kw [w ''para'', w ''stop'', w ''detente'', w ''quieto'', w ''frena'', w ''basta'',
         w ''alto'', w ''no te muevas''],
     ''stop'', [], asc ''Detenido''),
    (kw [w ''duerme'', Lit (asc ''du'' @ [233] @ asc ''rmete''), w ''a dormir'', w ''descansa'',
         w ''reposo'', w ''modo reposo'', Lit (asc ''rel'' @ [225] @ asc ''jate'')],
     ''sleep'', [], asc ''Entrando en reposo''),
    (kw [w ''despierta'', w ''arriba'', Lit (asc ''act'' @ [237] @ asc ''vate''), w ''espabila'',
         w ''levanta'', w ''vamos''],
     ''wake'', [], asc ''Despertando''),
    (kw [w ''baila'', w ''bailar'', Lit (asc ''men'' @ [233] @ asc ''ate''),
         w ''mueve el esqueleto''],
     ''dance'', [], [161] @ asc ''A bailar!''),
    (kw [w ''avanza'', w ''adelante'', w ''hacia adelante'', w ''camina'',
         Lit (asc ''mu'' @ [233] @ asc ''vete''), w ''ve'', w ''anda'', w ''sigue'',
         seqs [w ''pa'', Opt (Lit [39]), w ''lante'']],
     ''move'', [(''direction'', VStr ''forward''), (''distance'', VNum (PInt 1))],
     asc ''Avanzando''),
    (kw [w ''retrocede'', Lit (asc ''atr'' @ [225] @ asc ''s''),
         Lit (asc ''hacia atr'' @ [225] @ asc ''s''),
         Lit (asc ''marcha atr'' @ [225] @ asc ''s''),
         seqs [w ''pa'', Opt (Lit [39]), Lit (asc ''tr'' @ [225] @ asc ''s'')], w ''recular''],
     ''move'', [(''direction'', VStr ''backward''), (''distance'', VNum (PInt 1))],
     asc ''Retrocediendo''),
    ((True, seqs [Bnd, TURN_VERBS, Star Dot, w ''izquierda'', Bnd]),
     ''turn'', [(''direction'', VStr ''left''), (''angle'', VNum (PInt 90))],
     asc ''Girando a la izquierda''),
    ((True, seqs [Bnd, w ''izquierda'', Bnd]),
     ''turn'', [(''direction'', VStr ''left''), (''angle'', VNum (PInt 90))],
     asc ''Girando a la izquierda''),
    ((True, seqs [Bnd, TURN_VERBS, Star Dot, w ''derecha'', Bnd]),
     ''turn'', [(''direction'', VStr ''right''), (''angle'', VNum (PInt 90))],
     asc ''Girando a la derecha''),
    ((True, seqs [Bnd, w ''derecha'', Bnd]),
     ''turn'', [(''direction'', VStr ''right''), (''angle'', VNum (PInt 90))],
     asc ''Girando a la derecha''),
    ((True, seqs [Bnd, TURN_VERBS, Bnd]),
     ''turn'', [(''direction'', VStr ''right''), (''angle'', VNum (PInt 90))],
     asc ''Girando''),
    (kw [w ''agarra'', w ''coge'', w ''sujeta'', w ''toma''],
     ''grab'', [], asc ''Agarrando''),
    (kw [w ''suelta'', w ''libera'', w ''deja'', w ''soltar''],
     ''release'', [], asc ''Soltando''),
    (kw [seqs [w ''mira'', Star Dot, w ''arriba''], seqs [w ''levanta'', Star Dot, w ''cabeza'']],
     ''look_up'', [(''angle'', VNum (PInt 30))], asc ''Mirando arriba''),
    (kw [seqs [w ''mira'', Star Dot, w ''abajo''], seqs [w ''baja'', Star Dot, w ''cabeza'']],
     ''look_down'', [(''angle'', VNum (PInt 30))], asc ''Mirando abajo'')]"

definition THEN_WORD :: regex where
  "THEN_WORD = Alt (Seq (w ''luego'') (Plus Space))
                   (Seq (Lit (asc ''despu'' @ [233] @ asc ''s'')) (Plus Space))"

definition COMPOUND_SPLITTER :: pattern where
  "COMPOUND_SPLITTER =
     (True, Seq (Plus Space)
        (alts [seqs [w ''y'', Plus Space, Opt THEN_WORD],
               seqs [w '','', Star Space, Opt THEN_WORD],
               Seq (w ''luego'') (Plus Space),
               Seq (Lit (asc ''despu'' @ [233] @ asc ''s'')) (Plus Space)]))"

definition NOISE :: pattern where
  "NOISE = kw [w ''oye'', w ''eh'', w ''hey'', w ''robot'', w ''por favor'', w ''porfa'',
               w ''venga'', Seq (Lit (191 # asc ''puedes'')) (Opt (w ''?'')), w ''puedes'']"

definition set_number :: "string \<Rightarrow> ustr \<Rightarrow> pattern \<Rightarrow> params \<Rightarrow> error + params" where
  "set_number key text pat ps =
     (case extract_number text pat of
        Inl e \<Rightarrow> Inl e
      | Inr None \<Rightarrow> Inr ps
      | Inr (Some v) \<Rightarrow> Inr (dict_set key (VNum v) ps))"

definition refine_move :: "string \<Rightarrow> ustr \<Rightarrow> params \<Rightarrow> error + params" where
  "refine_move act text ps =
     (if act = ''move'' then set_number ''distance'' text METERS_PATTERN ps else Inr ps)"

definition refine_turn :: "string \<Rightarrow> ustr \<Rightarrow> params \<Rightarrow> error + params" where
  "refine_turn act text ps =
     (if act = ''turn'' then
        (if found FULL_TURN text then Inr (dict_set ''angle'' (VNum (PInt 360)) ps)
         else if found HALF_TURN text then Inr (dict_set ''angle'' (VNum (PInt 180)) ps)
         else if found QUARTER_TURN text then Inr (dict_set ''angle'' (VNum (PInt 90)) ps)
         else set_number ''angle'' text DEGREES_PATTERN ps)
      else Inr ps)"

definition refine_look :: "string \<Rightarrow> ustr \<Rightarrow> params \<Rightarrow> error + params" where
  "refine_look act text ps =
     (if act = ''look_up'' \<or> act = ''look_down''
      then set_number ''angle'' text DEGREES_PATTERN ps else Inr ps)"

definition build_action :: "string \<Rightarrow> params \<Rightarrow> ustr \<Rightarrow> ustr \<Rightarrow> error + action_result option" where
  "build_action act default_params conf text =
     (case refine_move act text default_params of
        Inl e \<Rightarrow> Inl e
      | Inr ps1 \<Rightarrow>
          (case refine_turn act text ps1 of
             Inl e \<Rightarrow> Inl e
           | Inr ps2 \<Rightarrow>
               (case refine_look act text ps2 of
                  Inl e \<Rightarrow> Inl e
                | Inr ps3 \<Rightarrow>
                    Inr (Some \<lparr>action = act, params = ps3, confirmation = conf\<rparr>))))"

fun first_rule :: "(pattern \<times> string \<times> params \<times> ustr) list \<Rightarrow> ustr \<Rightarrow> error + action_result option" where
  "first_rule [] text = Inr None"
| "first_rule ((pat, act, default_params, conf) # rules) text =
     (if found pat text then build_action act default_params conf text
      else first_rule rules text)"

definition match_single :: "ustr \<Rightarrow> error + action_result option" where
  "match_single text =
     (let text_clean = py_lower (py_strip text)
      in if text_clean = [] then Inr None else first_rule COMMAND_PATTERNS text_clean)"

fun match_parts :: "ustr list \<Rightarrow> action_result list \<Rightarrow> error + router_result option" where
  "match_parts [] acts = Inr (Some \<lparr>matched = True, actions = acts\<rparr>)"
| "match_parts (part # parts) acts =
     (case match_single part of
        Inl e \<Rightarrow> Inl e
      | Inr None \<Rightarrow> Inr None
      | Inr (Some a) \<Rightarrow> match_parts parts (acts @ [a]))"

definition strip_noise :: "ustr \<Rightarrow> ustr" where
  "strip_noise text = py_strip (re_sub_empty (fst NOISE) (snd NOISE) text)"

definition segments :: "ustr \<Rightarrow> ustr list" where
  "segments text_clean =
     filter (\<lambda>p. p \<noteq> [])
       (map py_strip (re_split (fst COMPOUND_SPLITTER) (snd COMPOUND_SPLITTER) text_clean))"

definition route_command :: "ustr \<Rightarrow> error + router_result option" where
  "route_command text =
     (let text_clean = strip_noise text in
      if text_clean = [] then Inr None
      else
        (let parts = segments text_clean in
         if length parts > 1 then match_parts parts []
         else
           (case match_single text_clean of
              Inl e \<Rightarrow> Inl e
            | Inr None \<Rightarrow> Inr None
            | Inr (Some a) \<Rightarrow> Inr (Some \<lparr>matched = True, actions = [a]\<rparr>))))"


section \<open>Sentence segmenter (app/engine.py, generate\_stream)\<close>

definition THINK_PATTERN :: pattern where
  "THINK_PATTERN = (False, seqs [Lit (asc ''<think>''), LazyStar DotAll, Lit (asc ''</think>'')])"

definition SENTENCE_END :: pattern where
  "SENTENCE_END =
     (False, Alt (Seq (Cls (OneOf (asc ''.!?;'' @ [12290]))) (Star Space)) (Cls (Ch 10)))"

definition THINK_OPEN :: ustr where
  "THINK_OPEN = asc ''<think>''"

definition THINK_CLOSE :: ustr where
  "THINK_CLOSE = asc ''</think>''"

text \<open>
  The boundary check at the end of the loop body: the new buffer and the sentence
  yielded, if any.
\<close>

definition check_boundary :: "ustr \<Rightarrow> ustr \<times> ustr list" where
  "check_boundary buffer =
     (case re_search SENTENCE_END buffer of
        None \<Rightarrow> (buffer, [])
      | Some m \<Rightarrow>
          (let end_pos = fst (snd m);
               sentence = py_strip (take end_pos buffer)
           in (drop end_pos buffer, if sentence \<noteq> [] then [sentence] else [])))"

text \<open>
  One iteration of the loop over the stream, on the state (buffer, in\_think\_block):
  the new state and the sentences yielded. A chunk without content is the empty token.
\<close>

definition feed :: "ustr \<times> bool \<Rightarrow> ustr \<Rightarrow> (ustr \<times> bool) \<times> ustr list" where
  "feed st token =
     (if token = [] then (st, [])
      else
        (let buffer = fst st @ token;
             in_think_block = (if contains THINK_OPEN buffer \<and> \<not> snd st then True else snd st)
         in if in_think_block then
              (if contains THINK_CLOSE buffer then
                 (let r = check_boundary (re_sub_empty (fst THINK_PATTERN) (snd THINK_PATTERN) buffer)
                  in ((fst r, False), snd r))
               else ((buffer, True), []))
            else (let r = check_boundary buffer in ((fst r, False), snd r))))"

fun run_stream :: "ustr \<times> bool \<Rightarrow> ustr list \<Rightarrow> ustr list" where
  "run_stream st [] =
     (let remaining = py_strip (fst st)
      in if remaining \<noteq> [] \<and> \<not> snd st then [remaining] else [])"
| "run_stream st (token # tokens) =
     (let r = feed st token in snd r @ run_stream (fst r) tokens)"

definition generate_stream :: "ustr list \<Rightarrow> ustr list" where
  "generate_stream tokens = run_stream ([], False) tokens"

section \<open>Conversation history (app/conversation.py)\<close>

record turn =
  role :: string
  content :: ustr

record conversation =
  max_turns :: int
  maxlen :: nat
  history :: "turn list"

text \<open>\<open>deque.append\<close> on a deque with a maximum length: append, then trim on the left.\<close>

definition deque_append :: "nat \<Rightarrow> 'a \<Rightarrow> 'a list \<Rightarrow> 'a list" where
  "deque_append n x d = (let d' = d @ [x] in if length d' > n then tl d' else d')"

text \<open>
  The constructor; \<open>loaded\<close> is what \<open>_load_from_disk\<close> reads for this project (the
  empty list when there is no file). \<open>deque(maxlen=...)\<close> raises on a negative length.
\<close>

definition new_conversation :: "int \<Rightarrow> turn list \<Rightarrow> error + conversation" where
  "new_conversation mt loaded =
     (if mt * 2 < 0 then Inl ValueError
      else Inr \<lparr>max_turns = mt, maxlen = nat (mt * 2),
                history = foldl (\<lambda>d item. deque_append (nat (mt * 2)) item d) [] loaded\<rparr>)"

definition add_exchange :: "ustr \<Rightarrow> ustr \<Rightarrow> conversation \<Rightarrow> conversation" where
  "add_exchange user_text assistant_text c =
     c\<lparr>history :=
         deque_append (maxlen c) \<lparr>role = ''assistant'', content = assistant_text\<rparr>
           (deque_append (maxlen c) \<lparr>role = ''user'', content = user_text\<rparr> (history c))\<rparr>"

definition clear :: "conversation \<Rightarrow> conversation" where
  "clear c = c\<lparr>history := []\<rparr>"

datatype operation = AddExchange ustr ustr | Clear

fun apply_op :: "conversation \<Rightarrow> operation \<Rightarrow> conversation" where
  "apply_op c (AddExchange u a) = add_exchange u a c"
| "apply_op c Clear = clear c"

definition run_ops :: "conversation \<Rightarrow> operation list \<Rightarrow> conversation" where
  "run_ops c ops = foldl apply_op c ops"


section \<open>Vocabulary of the specification\<close>

text \<open>The stop rule is the first rule of the table; a text has a stop keyword when its
  trigger is found in it.\<close>

definition stop_rule :: "pattern \<times> string \<times> params \<times> ustr" where
  "stop_rule = hd COMMAND_PATTERNS"

definition has_stop_keyword :: "ustr \<Rightarrow> bool" where
  "has_stop_keyword s = found (fst stop_rule) s"

definition stop_action :: action_result where
  "stop_action = \<lparr>action = ''stop'', params = [], confirmation = asc ''Detenido''\<rparr>"

text \<open>A segment that no rule of the table resolves, and an utterance that no
  deterministic rule resolves.\<close>

definition no_rule :: "ustr \<Rightarrow> bool" where
  "no_rule part =
     (let s = py_lower (py_strip part)
      in s = [] \<or> (\<forall>rule\<in>set COMMAND_PATTERNS. \<not> found (fst rule) s))"

definition unresolved :: "ustr \<Rightarrow> bool" where
  "unresolved t =
     (let c = strip_noise t; parts = segments c
      in c = [] \<or> (if 1 < length parts then \<exists>part\<in>set parts. no_rule part else no_rule c))"

text \<open>The last \<open>n\<close> elements of a list, and the turns recorded since the last clear.\<close>

definition last_n :: "nat \<Rightarrow> 'a list \<Rightarrow> 'a list" where
  "last_n n xs = drop (length xs - n) xs"

definition exchange :: "ustr \<Rightarrow> ustr \<Rightarrow> turn list" where
  "exchange u a = [\<lparr>role = ''user'', content = u\<rparr>, \<lparr>role = ''assistant'', content = a\<rparr>]"

fun record_op :: "turn list \<Rightarrow> operation \<Rightarrow> turn list" where
  "record_op h (AddExchange u a) = h @ exchange u a"
| "record_op h Clear = []"

definition turns_since_clear :: "operation list \<Rightarrow> turn list" where
  "turns_since_clear ops = foldl record_op [] ops"

text \<open>Latin-1 text: every code point is below U+0100.\<close>

definition latin1 :: "ustr \<Rightarrow> bool" where
  "latin1 s = (\<forall>c\<in>set s. c < 256)"

text \<open>The sentence-boundary characters of \<open>SENTENCE_END\<close>: the marks
  \<open>. ! ? ;\<close>, the ideographic full stop, and the newline.\<close>

definition boundary_char :: "cp \<Rightarrow> bool" where
  "boundary_char c = (c \<in> set (asc ''.!?;'' @ [12290, 10]))"

definition has_boundary :: "ustr \<Rightarrow> bool" where
  "has_boundary s = (\<exists>c\<in>set s. boundary_char c)"

text \<open>The buffer left after a sentence that ends with the boundary character \<open>d\<close>.\<close>

definition after_boundary :: "cp \<Rightarrow> ustr \<Rightarrow> ustr" where
  "after_boundary d post = (if d = 10 then post else dropWhile is_space post)"

text \<open>The two phases of \<open>generate_stream\<close>: the loop over the stream, which returns
  the final state and the sentences yielded inside the loop, and the final flush after the
  stream is exhausted.\<close>

fun stream_loop :: "ustr \<times> bool \<Rightarrow> ustr list \<Rightarrow> (ustr \<times> bool) \<times> ustr list" where
  "stream_loop st [] = (st, [])"
| "stream_loop st (token # tokens) =
     (let r = feed st token; r' = stream_loop (fst r) tokens in (fst r', snd r @ snd r'))"

definition final_flush :: "ustr \<times> bool \<Rightarrow> ustr list" where
  "final_flush st =
     (let remaining = py_strip (fst st)
      in if remaining \<noteq> [] \<and> \<not> snd st then [remaining] else [])"

section \<open>Evaluation rules\<close>

lemmas char_tables = is_space_def is_decimal_def is_alnum_def is_word_def to_lower_def
  lower_full_def

lemmas regex_eval = asc_def alts_def seqs_def words_def w_def kw_def match_here_def search_def
  re_search_def found_def one_char_def with_group_def word_before_def word_after_def
  at_boundary_def

lemmas router_patterns = COMMAND_PATTERNS_def TURN_VERBS_def NOISE_def COMPOUND_SPLITTER_def
  THEN_WORD_def FULL_TURN_def HALF_TURN_def QUARTER_TURN_def METERS_PATTERN_def
  DEGREES_PATTERN_def unit_pattern_def DIGIT_NUMBER_def DECIMAL_def WORD_NUMBERS_def

lemmas router_eval = route_command_def strip_noise_def segments_def match_single_def
  build_action_def refine_move_def refine_turn_def refine_look_def set_number_def
  extract_number_def py_strip_def lstrip_def rstrip_def py_lower_def re_sub_empty_def
  re_split_def py_float_def decimal_literal_def replace_char_def

lemmas segmenter_eval = generate_stream_def feed_def check_boundary_def THINK_PATTERN_def
  SENTENCE_END_def THINK_OPEN_def THINK_CLOSE_def py_strip_def lstrip_def rstrip_def
  re_sub_empty_def

section \<open>The matcher: consumed text and captured group\<close>

lemma star_greedy_consumed:
  "q \<in> set (star_greedy ic k p xs) \<Longrightarrow> \<exists>c. xs = c @ snd q \<and> (\<forall>x\<in>set c. cmatch ic k x)"
proof (induction xs arbitrary: p)
  case Nil
  then show ?case by simp
next
  case (Cons x xs)
  show ?case
  proof (cases "q = (p, x # xs)")
    case True
    then show ?thesis by simp
  next
    case False
    with Cons.prems have m: "cmatch ic k x" and q: "q \<in> set (star_greedy ic k (Some x) xs)"
      by (auto split: if_splits)
    from Cons.IH [OF q] obtain c where "xs = c @ snd q" "\<forall>x\<in>set c. cmatch ic k x" by blast
    with m have "x # xs = (x # c) @ snd q \<and> (\<forall>y\<in>set (x # c). cmatch ic k y)" by simp
    then show ?thesis by blast
  qed
qed

lemma plus_consumed:
  assumes "st \<in> set (rmatch ic (Plus k) (p, xs, g))"
  shows "\<exists>c. xs = c @ fst (snd st) \<and> c \<noteq> [] \<and> (\<forall>x\<in>set c. cmatch ic k x) \<and> snd (snd st) = g"
proof (cases xs)
  case Nil
  with assms show ?thesis by (simp add: one_char_def)
next
  case (Cons x xs')
  with assms have m: "cmatch ic k x"
    and "\<exists>q \<in> set (star_greedy ic k (Some x) xs'). st = with_group g q"
    by (auto simp: one_char_def split: if_splits)
  then obtain q where q: "q \<in> set (star_greedy ic k (Some x) xs')" and st: "st = with_group g q"
    by blast
  from star_greedy_consumed [OF q] obtain c where "xs' = c @ snd q" "\<forall>x\<in>set c. cmatch ic k x"
    by blast
  with m Cons st have "xs = (x # c) @ fst (snd st) \<and> x # c \<noteq> [] \<and> (\<forall>y\<in>set (x # c). cmatch ic k y)
      \<and> snd (snd st) = g"
    by (simp add: with_group_def)
  then show ?thesis by blast
qed

lemma rmatch_Seq_mem:
  "st \<in> set (rmatch ic (Seq a b) s0) \<longleftrightarrow> (\<exists>s1\<in>set (rmatch ic a s0). st \<in> set (rmatch ic b s1))"
  by auto

lemma rmatch_Opt_mem:
  "st \<in> set (rmatch ic (Opt a) s0) \<longleftrightarrow> st \<in> set (rmatch ic a s0) \<or> st = s0"
  by auto

lemma rmatch_Alt_mem:
  "st \<in> set (rmatch ic (Alt a b) s0) \<longleftrightarrow> st \<in> set (rmatch ic a s0) \<or> st \<in> set (rmatch ic b s0)"
  by auto

lemma dec_consumed:
  assumes "st \<in> set (rmatch False DECIMAL (p, xs, g))"
  shows "\<exists>c. xs = c @ fst (snd st) \<and> decimal_literal (replace_char 44 46 c)"
proof -
  from assms obtain s1 where s1: "s1 \<in> set (rmatch False (Plus Digit) (p, xs, g))"
    and st: "st \<in> set (rmatch False (Opt (Seq (Cls (OneOf (asc ''.,''))) (Plus Digit))) s1)"
    unfolding DECIMAL_def rmatch_Seq_mem by blast
  obtain p1 xs1 g1 where s1eq: "s1 = (p1, xs1, g1)" by (cases s1) auto
  from plus_consumed [OF s1] s1eq obtain a where
    a: "xs = a @ xs1" "a \<noteq> []" "\<forall>x\<in>set a. is_decimal x" by auto
  have rep_a: "replace_char 44 46 a = a"
    using a(3) by (auto simp: replace_char_def is_decimal_def intro!: map_idI)
  have tw: "\<And>r. takeWhile is_decimal (a @ 46 # r) = a" "\<And>r. dropWhile is_decimal (a @ 46 # r) = 46 # r"
    using a(3) by (simp_all add: takeWhile_append2 dropWhile_append2 is_decimal_def)
  from st consider (skip) "st = s1" | (frac) "st \<in> set (rmatch False (Seq (Cls (OneOf (asc ''.,''))) (Plus Digit)) s1)"
    unfolding rmatch_Opt_mem by blast
  then show ?thesis
  proof cases
    case skip
    have "decimal_literal (replace_char 44 46 a)"
      using a by (simp add: rep_a decimal_literal_def takeWhile_eq_all_conv[THEN iffD2] dropWhile_eq_Nil_conv[THEN iffD2])
    with skip s1eq a show ?thesis by auto
  next
    case frac
    then obtain s2 where s2: "s2 \<in> set (rmatch False (Cls (OneOf (asc ''.,''))) s1)"
      and st2: "st \<in> set (rmatch False (Plus Digit) s2)" unfolding rmatch_Seq_mem by blast
    from s2 s1eq obtain x xs2 where x: "xs1 = x # xs2" "x = 46 \<or> x = 44" "s2 = (Some x, xs2, g1)"
      by (cases xs1) (auto simp: one_char_def with_group_def asc_def split: if_splits)
    from plus_consumed [of st False Digit "Some x" xs2 g1] st2 x obtain b where
      b: "xs2 = b @ fst (snd st)" "b \<noteq> []" "\<forall>x\<in>set b. is_decimal x" by auto
    have rep_b: "replace_char 44 46 b = b"
      using b(3) by (auto simp: replace_char_def is_decimal_def intro!: map_idI)
    have "replace_char 44 46 (a @ x # b) = a @ 46 # b"
      using x(2) rep_a rep_b by (auto simp: replace_char_def)
    moreover have "decimal_literal (a @ 46 # b)"
      using a b by (simp add: decimal_literal_def tw list_all_iff)
    moreover have "xs = (a @ x # b) @ fst (snd st)" using a x b by simp
    ultimately show ?thesis by metis
  qed
qed


lemma rmatch_keeps_group:
  "st \<in> set (rmatch ic r s0) \<Longrightarrow> snd (snd s0) \<noteq> None \<Longrightarrow> snd (snd st) \<noteq> None"
proof (induction r arbitrary: s0 st)
  case (Seq a b)
  from Seq.prems(1) obtain s1 where "s1 \<in> set (rmatch ic a s0)" "st \<in> set (rmatch ic b s1)"
    unfolding rmatch_Seq_mem by blast
  with Seq.IH Seq.prems(2) show ?case by blast
next
  case (Alt a b)
  then show ?case unfolding rmatch_Alt_mem by blast
next
  case (Opt a)
  then show ?case unfolding rmatch_Opt_mem by blast
qed (cases s0; auto simp: with_group_def split: option.splits if_splits)+

lemma rmatch_Grp_group:
  "st \<in> set (rmatch ic (Grp a) s0) \<Longrightarrow> snd (snd st) \<noteq> None"
  by (cases s0) auto

lemma search_at_head:
  "search_at ic r i p xs = Some m \<Longrightarrow>
     \<exists>p' ys st. st \<in> set (rmatch ic r (p', ys, None)) \<and> snd (snd m) = snd (snd st)"
proof (induction xs arbitrary: i p)
  case Nil
  then show ?case
    by (auto simp: match_here_def split: list.splits option.splits) (metis list.set_intros(1) snd_conv)
next
  case (Cons x xs)
  show ?case
  proof (cases "match_here ic r p (x # xs)")
    case None
    with Cons.prems have "search_at ic r (Suc i) (Some x) xs = Some m" by simp
    from Cons.IH [OF this] show ?thesis .
  next
    case (Some a)
    then obtain st rest where h: "rmatch ic r (p, x # xs, None) = st # rest" "snd a = snd (snd st)"
      by (auto simp: match_here_def split: list.splits)
    from Some Cons.prems have "snd (snd m) = snd a" by (cases a) auto
    with h have "st \<in> set (rmatch ic r (p, x # xs, None)) \<and> snd (snd m) = snd (snd st)" by simp
    then show ?thesis by blast
  qed
qed

lemma seqs3: "seqs [a, b, c] = Seq a (Seq b c)"
  by (simp add: seqs_def)

lemma seqs4: "seqs [a, b, c, d] = Seq a (Seq b (Seq c d))"
  by (simp add: seqs_def)

lemma unit_pattern_group:
  assumes "re_search (unit_pattern u) s = Some m"
  shows "snd (snd m) \<noteq> None"
proof -
  from assms search_at_head obtain p' ys st where
    st: "st \<in> set (rmatch True (snd (unit_pattern u)) (p', ys, None))" and m: "snd (snd m) = snd (snd st)"
    unfolding re_search_def search_def unit_pattern_def fst_conv snd_conv by blast
  from st have "st \<in> set (rmatch True (Seq (Grp (Seq (Cls Word) (LazyStar (Union Word Space))))
      (Seq (Star Space) (Seq (Lit (asc u)) (Opt (Lit (asc ''s'')))))) (p', ys, None))"
    unfolding unit_pattern_def snd_conv seqs4 .
  then obtain s1 r where "s1 \<in> set (rmatch True (Grp (Seq (Cls Word) (LazyStar (Union Word Space)))) (p', ys, None))"
      "st \<in> set (rmatch True r s1)"
    by (metis rmatch_Seq_mem)
  with rmatch_Grp_group rmatch_keeps_group m show ?thesis by metis
qed

lemma digit_number_group:
  assumes "re_search DIGIT_NUMBER s = Some m"
  shows "\<exists>d. snd (snd m) = Some d \<and> decimal_literal (replace_char 44 46 d)"
proof -
  from assms search_at_head obtain p' ys st where
    st: "st \<in> set (rmatch False (Seq Bnd (Seq (Grp DECIMAL) Bnd)) (p', ys, None))" and m: "snd (snd m) = snd (snd st)"
    unfolding re_search_def search_def DIGIT_NUMBER_def DECIMAL_def seqs3 fst_conv snd_conv by blast
  from st obtain s1 s2 where s1: "s1 \<in> set (rmatch False Bnd (p', ys, None))"
    and s2: "s2 \<in> set (rmatch False (Grp DECIMAL) s1)" and s3: "st \<in> set (rmatch False Bnd s2)"
    unfolding rmatch_Seq_mem by blast
  from s1 have s1eq: "s1 = (p', ys, None)" by (auto split: if_splits)
  from s2 s1eq obtain s0 where s0: "s0 \<in> set (rmatch False DECIMAL (p', ys, None))"
    and s2eq: "snd (snd s2) = Some (take (length ys - length (fst (snd s0))) ys)" by auto
  from dec_consumed [OF s0] obtain c where c: "ys = c @ fst (snd s0)" "decimal_literal (replace_char 44 46 c)"
    by blast
  from c(1) have "length ys - length (fst (snd s0)) = length c"
    by (metis add_diff_cancel_right' length_append)
  with c(1) have "take (length ys - length (fst (snd s0))) ys = c" by (metis append_eq_conv_conj)
  moreover from s3 have "st = s2" by (cases s2) (auto split: if_splits)
  ultimately show ?thesis using m s2eq c(2) by simp
qed

lemma extract_number_total: "\<exists>r. extract_number text (unit_pattern u) = Inr r"
proof (cases "re_search (unit_pattern u) text")
  case None
  then show ?thesis by (simp add: extract_number_def)
next
  case (Some m)
  from unit_pattern_group [OF Some] obtain grp where grp: "snd (snd m) = Some grp" by blast
  show ?thesis
  proof (cases "map_of WORD_NUMBERS (py_lower (py_strip grp))")
    case (Some v)
    with \<open>re_search (unit_pattern u) text = Some m\<close> grp show ?thesis
      by (simp add: extract_number_def)
  next
    case None
    note wn = this
    show ?thesis
    proof (cases "re_search DIGIT_NUMBER (py_lower (py_strip grp))")
      case None
      with wn \<open>re_search (unit_pattern u) text = Some m\<close> grp show ?thesis
        by (simp add: extract_number_def)
    next
      case (Some dm)
      from digit_number_group [OF Some] obtain d where "snd (snd dm) = Some d"
        "decimal_literal (replace_char 44 46 d)" by blast
      with Some wn \<open>re_search (unit_pattern u) text = Some m\<close> grp show ?thesis
        by (simp add: extract_number_def py_float_def)
    qed
  qed
qed

lemma set_number_total: "\<exists>r. set_number key text (unit_pattern u) ps = Inr r"
  using extract_number_total [of "text" u]
  by (auto simp: set_number_def split: option.splits)

lemma refine_move_total: "\<exists>r. refine_move act text ps = Inr r"
  unfolding refine_move_def METERS_PATTERN_def using set_number_total by simp

lemma refine_turn_total: "\<exists>r. refine_turn act text ps = Inr r"
  unfolding refine_turn_def DEGREES_PATTERN_def using set_number_total by simp

lemma refine_look_total: "\<exists>r. refine_look act text ps = Inr r"
  unfolding refine_look_def DEGREES_PATTERN_def using set_number_total by simp

lemma build_action_total: "\<exists>a. build_action act ps conf text = Inr (Some a)"
proof -
  obtain ps1 where r1: "refine_move act text ps = Inr ps1"
    using refine_move_total by blast
  obtain ps2 where r2: "refine_turn act text ps1 = Inr ps2"
    using refine_turn_total by blast
  obtain ps3 where r3: "refine_look act text ps2 = Inr ps3"
    using refine_look_total by blast
  show ?thesis by (simp add: build_action_def r1 r2 r3)
qed

lemma first_rule_total: "\<exists>r. first_rule rules text = Inr r"
proof (induction rules)
  case Nil
  then show ?case by simp
next
  case (Cons rule rules)
  obtain pat act ps conf where "rule = (pat, act, ps, conf)" by (cases rule) auto
  with Cons build_action_total [of act ps conf "text"] show ?case by auto
qed

lemma match_single_total: "\<exists>r. match_single text = Inr r"
  using first_rule_total by (simp add: match_single_def Let_def)

lemma match_parts_total: "\<exists>r. match_parts parts acts = Inr r"
proof (induction parts arbitrary: acts)
  case Nil
  then show ?case by simp
next
  case (Cons part parts)
  from match_single_total obtain r where r: "match_single part = Inr r" by blast
  show ?case
  proof (cases r)
    case None
    with r show ?thesis by simp
  next
    case (Some a)
    with r Cons.IH [of "acts @ [a]"] show ?thesis by simp
  qed
qed

lemma route_command_total: "\<exists>r. route_command text = Inr r"
proof -
  from match_single_total obtain r where "match_single (strip_noise text) = Inr r" by blast
  with match_parts_total [of "segments (strip_noise text)" "[]"] show ?thesis
    by (cases r) (auto simp: route_command_def Let_def)
qed


section \<open>Router: results of matching\<close>

lemma first_rule_none:
  "first_rule rules s = Inr None \<longleftrightarrow> (\<forall>rule\<in>set rules. \<not> found (fst rule) s)"
proof (induction rules)
  case Nil
  then show ?case by simp
next
  case (Cons rule rules)
  obtain pat act ps conf where r: "rule = (pat, act, ps, conf)" by (cases rule) auto
  from build_action_total [of act ps conf s] obtain a where
    "build_action act ps conf s = Inr (Some a)" by blast
  with Cons r show ?case by simp
qed

lemma match_single_none: "match_single part = Inr None \<longleftrightarrow> no_rule part"
  by (simp add: match_single_def no_rule_def Let_def first_rule_none)

lemma match_parts_result:
  "match_parts parts acts =
     (if \<exists>part\<in>set parts. match_single part = Inr None then Inr None
      else Inr (Some \<lparr>matched = True,
                       actions = acts @ map (\<lambda>part. the (projr (match_single part))) parts\<rparr>))"
proof (induction parts arbitrary: acts)
  case Nil
  then show ?case by simp
next
  case (Cons part parts)
  from match_single_total obtain r where r: "match_single part = Inr r" by blast
  show ?case
  proof (cases r)
    case None
    with r show ?thesis by simp
  next
    case (Some a)
    with r Cons.IH [of "acts @ [a]"] show ?thesis by simp
  qed
qed

lemma segments_empty: "segments [] = []"
  by (simp add: segments_def re_split_def py_strip_def lstrip_def rstrip_def)

text \<open>
  Claim C3. For a compound utterance (its normalized text splits into two or more
  non-empty segments), if any segment matches no rule then \<open>route_command\<close> returns
  \<open>None\<close> for the whole utterance; otherwise it returns one action per segment, in order.
  A partial action list is never returned.
\<close>

theorem compound_all_or_nothing:
  assumes "1 < length (segments (strip_noise t))"
  shows "if \<exists>part\<in>set (segments (strip_noise t)). match_single part = Inr None
         then route_command t = Inr None
         else \<exists>acts. route_command t = Inr (Some \<lparr>matched = True, actions = acts\<rparr>)
                \<and> map match_single (segments (strip_noise t)) = map (\<lambda>a. Inr (Some a)) acts"
proof -
  let ?parts = "segments (strip_noise t)"
  from assms have ne: "strip_noise t \<noteq> []" using segments_empty by auto
  have rc: "route_command t = match_parts ?parts []"
    using assms ne by (simp add: route_command_def Let_def)
  show ?thesis
  proof (cases "\<exists>part\<in>set ?parts. match_single part = Inr None")
    case True
    then show ?thesis using rc match_parts_result [of ?parts "[]"] by simp
  next
    case False
    have "\<forall>part\<in>set ?parts. match_single part = Inr (Some (the (projr (match_single part))))"
    proof
      fix part assume "part \<in> set ?parts"
      with False have n: "match_single part \<noteq> Inr None" by blast
      from match_single_total obtain r where r: "match_single part = Inr r" by blast
      with n show "match_single part = Inr (Some (the (projr (match_single part))))"
        by (cases r) auto
    qed
    then have "map match_single ?parts
        = map (\<lambda>a. Inr (Some a)) (map (\<lambda>part. the (projr (match_single part))) ?parts)"
      by (simp add: map_idI comp_def cong: map_cong)
    with False rc match_parts_result [of ?parts "[]"] show ?thesis by simp
  qed
qed

lemma ws_segments: "segments (strip_noise (asc ''avanza y canta'')) = [asc ''avanza'', asc ''canta'']"
  by (simp add: char_tables regex_eval router_patterns router_eval)

lemma ws_canta: "match_single (asc ''canta'') = Inr None"
  by (simp add: char_tables regex_eval router_patterns router_eval)

theorem compound_all_or_nothing_witness:
  "1 < length (segments (strip_noise (asc ''avanza y canta'')))
   \<and> (\<exists>part\<in>set (segments (strip_noise (asc ''avanza y canta''))). match_single part = Inr None)
   \<and> route_command (asc ''avanza y canta'') = Inr None"
proof -
  have h: "1 < length (segments (strip_noise (asc ''avanza y canta'')))"
    by (simp add: ws_segments)
  have e: "\<exists>part\<in>set (segments (strip_noise (asc ''avanza y canta''))). match_single part = Inr None"
    using ws_canta by (simp add: ws_segments)
  from compound_all_or_nothing [OF h] e show ?thesis using h by simp
qed

subsection \<open>Stop priority\<close>

text \<open>
  Claim C1, counterexample. The utterance "avanza y para" contains the stop keyword
  "para" and the movement keyword "avanza" in two segments joined by "y". The router
  resolves each segment on its own and returns two actions, a move followed by a stop,
  not a single stop action.
\<close>

theorem stop_in_compound_counterexample:
  "has_stop_keyword (asc ''avanza y para'')
   \<and> found (fst (COMMAND_PATTERNS ! 4)) (asc ''avanza y para'')
   \<and> route_command (asc ''avanza y para'') =
     Inr (Some \<lparr>matched = True, actions =
       [\<lparr>action = ''move'',
          params = [(''direction'', VStr ''forward''), (''distance'', VNum (PInt 1))],
          confirmation = asc ''Avanzando''\<rparr>,
        stop_action]\<rparr>)"
  by (simp add: char_tables regex_eval router_patterns router_eval has_stop_keyword_def
      stop_rule_def stop_action_def)

lemma stop_rule_eq:
  "COMMAND_PATTERNS = stop_rule # tl COMMAND_PATTERNS
   \<and> snd stop_rule = (''stop'', [], asc ''Detenido'')"
  by (simp add: COMMAND_PATTERNS_def stop_rule_def)

lemma stop_build: "build_action ''stop'' [] conf s = Inr (Some \<lparr>action = ''stop'', params = [], confirmation = conf\<rparr>)"
  by (simp add: build_action_def refine_move_def refine_turn_def refine_look_def)

lemma found_stop_nonempty: "has_stop_keyword s \<Longrightarrow> s \<noteq> []"
  by (auto simp: has_stop_keyword_def stop_rule_def char_tables regex_eval router_patterns)

lemma stop_wins_segment:
  assumes "has_stop_keyword (py_lower (py_strip part))"
  shows "match_single part = Inr (Some stop_action)"
proof -
  have sr: "stop_rule = (fst stop_rule, ''stop'', [], asc ''Detenido'')"
    using stop_rule_eq by (metis prod.collapse)
  have cp: "COMMAND_PATTERNS = (fst stop_rule, ''stop'', [], asc ''Detenido'') # tl COMMAND_PATTERNS"
    using stop_rule_eq sr by metis
  have "first_rule ((fst stop_rule, ''stop'', [], asc ''Detenido'') # tl COMMAND_PATTERNS)
          (py_lower (py_strip part)) = Inr (Some stop_action)"
    using assms by (simp add: has_stop_keyword_def stop_build stop_action_def)
  then have "first_rule COMMAND_PATTERNS (py_lower (py_strip part)) = Inr (Some stop_action)"
    using cp by simp
  with found_stop_nonempty [OF assms] show ?thesis by (simp add: match_single_def Let_def)
qed

lemma stop_compound:
  assumes c: "1 < length (segments (strip_noise t))"
  shows "if \<exists>part\<in>set (segments (strip_noise t)). match_single part = Inr None
         then route_command t = Inr None
         else \<exists>acts. route_command t = Inr (Some \<lparr>matched = True, actions = acts\<rparr>)
                \<and> length acts = length (segments (strip_noise t))
                \<and> (\<forall>i<length acts.
                      has_stop_keyword (py_lower (py_strip (segments (strip_noise t) ! i)))
                      \<longrightarrow> acts ! i = stop_action)"
proof -
  let ?parts = "segments (strip_noise t)"
  let ?acts = "map (\<lambda>part. the (projr (match_single part))) ?parts"
  from c have ne: "strip_noise t \<noteq> []" using segments_empty by auto
  have rc: "route_command t = match_parts ?parts []"
    using c ne by (simp add: route_command_def Let_def)
  show ?thesis
  proof (cases "\<exists>part\<in>set ?parts. match_single part = Inr None")
    case True
    then show ?thesis using rc match_parts_result [of ?parts "[]"] by simp
  next
    case False
    then have r: "route_command t = Inr (Some \<lparr>matched = True, actions = ?acts\<rparr>)"
      using rc match_parts_result [of ?parts "[]"] by simp
    have s: "\<forall>i<length ?acts. has_stop_keyword (py_lower (py_strip (?parts ! i)))
                \<longrightarrow> ?acts ! i = stop_action"
      using stop_wins_segment by simp
    have "length ?acts = length ?parts" by simp
    with r s have "\<exists>acts. route_command t = Inr (Some \<lparr>matched = True, actions = acts\<rparr>)
                \<and> length acts = length ?parts
                \<and> (\<forall>i<length acts. has_stop_keyword (py_lower (py_strip (?parts ! i)))
                      \<longrightarrow> acts ! i = stop_action)"
      by blast
    with False show ?thesis by simp
  qed
qed

lemma stop_single:
  assumes a: "length (segments (strip_noise t)) \<le> 1"
    and h: "has_stop_keyword (py_lower (py_strip (strip_noise t)))"
  shows "route_command t = Inr (Some \<lparr>matched = True, actions = [stop_action]\<rparr>)"
proof -
  from h have m: "match_single (strip_noise t) = Inr (Some stop_action)"
    by (rule stop_wins_segment)
  have "strip_noise t \<noteq> []"
  proof
    assume "strip_noise t = []"
    with h have "has_stop_keyword (py_lower (py_strip []))" by simp
    then have "has_stop_keyword []" by (simp add: py_lower_def py_strip_def lstrip_def rstrip_def)
    with found_stop_nonempty show False by blast
  qed
  with a m show ?thesis by (simp add: route_command_def Let_def)
qed

text \<open>
  Claim C1, amended. The stop rule is the first rule of the table, so it wins inside
  one segment: a segment whose normalized text contains a stop keyword resolves to the stop
  action, whatever other keywords it contains and wherever they stand. An utterance that
  is not split into several segments and whose normalized text contains a stop keyword
  resolves to exactly one stop action. An utterance that splits into several segments is
  resolved segment by segment: if some segment matches no rule the result is \<open>None\<close>;
  otherwise the result holds one action per segment, and the action of every segment that
  contains a stop keyword is the stop action.
\<close>

theorem stop_wins_in_each_segment:
  "(has_stop_keyword (py_lower (py_strip part)) \<longrightarrow> match_single part = Inr (Some stop_action))
   \<and> (length (segments (strip_noise t)) \<le> 1
        \<and> has_stop_keyword (py_lower (py_strip (strip_noise t)))
        \<longrightarrow> route_command t = Inr (Some \<lparr>matched = True, actions = [stop_action]\<rparr>))
   \<and> (1 < length (segments (strip_noise t)) \<longrightarrow>
        (if \<exists>part\<in>set (segments (strip_noise t)). match_single part = Inr None
         then route_command t = Inr None
         else \<exists>acts. route_command t = Inr (Some \<lparr>matched = True, actions = acts\<rparr>)
                \<and> length acts = length (segments (strip_noise t))
                \<and> (\<forall>i<length acts.
                      has_stop_keyword (py_lower (py_strip (segments (strip_noise t) ! i)))
                      \<longrightarrow> acts ! i = stop_action)))"
proof (intro conjI impI)
  assume "has_stop_keyword (py_lower (py_strip part))"
  then show "match_single part = Inr (Some stop_action)" by (rule stop_wins_segment)
next
  assume "length (segments (strip_noise t)) \<le> 1
        \<and> has_stop_keyword (py_lower (py_strip (strip_noise t)))"
  then show "route_command t = Inr (Some \<lparr>matched = True, actions = [stop_action]\<rparr>)"
    using stop_single by blast
next
  assume "1 < length (segments (strip_noise t))"
  then show "if \<exists>part\<in>set (segments (strip_noise t)). match_single part = Inr None
         then route_command t = Inr None
         else \<exists>acts. route_command t = Inr (Some \<lparr>matched = True, actions = acts\<rparr>)
                \<and> length acts = length (segments (strip_noise t))
                \<and> (\<forall>i<length acts.
                      has_stop_keyword (py_lower (py_strip (segments (strip_noise t) ! i)))
                      \<longrightarrow> acts ! i = stop_action)"
    by (rule stop_compound)
qed

lemma w1_seg: "segments (asc ''anda para delante'') = [asc ''anda para delante'']"
  by (simp add: char_tables regex_eval router_patterns router_eval)

lemma w1_strip: "strip_noise (asc ''venga anda para delante'') = asc ''anda para delante''"
  by (simp add: char_tables regex_eval router_patterns router_eval)

lemma w1_stop: "has_stop_keyword (py_lower (py_strip (asc ''anda para delante'')))"
  by (simp add: char_tables regex_eval router_patterns router_eval has_stop_keyword_def stop_rule_def)

lemma w2_seg: "segments (strip_noise (asc ''avanza y para'')) = [asc ''avanza'', asc ''para'']"
  by (simp add: char_tables regex_eval router_patterns router_eval)

lemma w2_avanza: "match_single (asc ''avanza'') \<noteq> Inr None"
  by (simp add: char_tables regex_eval router_patterns router_eval)

lemma w2_para_match: "match_single (asc ''para'') \<noteq> Inr None"
  by (simp add: char_tables regex_eval router_patterns router_eval)

lemma w2_para: "has_stop_keyword (py_lower (py_strip (asc ''para'')))"
  by (simp add: char_tables regex_eval router_patterns router_eval has_stop_keyword_def stop_rule_def)

theorem stop_wins_in_each_segment_witness:
  "length (segments (strip_noise (asc ''venga anda para delante''))) \<le> 1
   \<and> has_stop_keyword (py_lower (py_strip (strip_noise (asc ''venga anda para delante''))))
   \<and> match_single (asc ''anda para delante'') = Inr (Some stop_action)
   \<and> route_command (asc ''venga anda para delante'')
       = Inr (Some \<lparr>matched = True, actions = [stop_action]\<rparr>)
   \<and> 1 < length (segments (strip_noise (asc ''avanza y para'')))
   \<and> has_stop_keyword (py_lower (py_strip (segments (strip_noise (asc ''avanza y para'')) ! 1)))
   \<and> (\<exists>acts. route_command (asc ''avanza y para'') = Inr (Some \<lparr>matched = True, actions = acts\<rparr>)
          \<and> length acts = 2 \<and> acts ! 1 = stop_action)"
proof -
  let ?t1 = "asc ''venga anda para delante''"
  let ?t2 = "asc ''avanza y para''"
  have a: "length (segments (strip_noise ?t1)) \<le> 1"
    unfolding w1_strip w1_seg by simp
  have b: "has_stop_keyword (py_lower (py_strip (strip_noise ?t1)))"
    unfolding w1_strip by (rule w1_stop)
  have c: "1 < length (segments (strip_noise ?t2))"
    unfolding w2_seg by simp
  have d: "has_stop_keyword (py_lower (py_strip (segments (strip_noise ?t2) ! 1)))"
    unfolding w2_seg using w2_para by simp
  have e: "\<not> (\<exists>part\<in>set (segments (strip_noise ?t2)). match_single part = Inr None)"
    unfolding w2_seg using w2_avanza w2_para_match by simp
  note th1 = stop_wins_in_each_segment [of "asc ''anda para delante''" ?t1]
  note th2 = stop_wins_in_each_segment [of "[]" ?t2]
  from th1 w1_stop have 1: "match_single (asc ''anda para delante'') = Inr (Some stop_action)"
    by (elim conjE) (erule mp)
  from th1 a b have 2: "route_command ?t1 = Inr (Some \<lparr>matched = True, actions = [stop_action]\<rparr>)"
    by (elim conjE) simp
  from th2 c have "if \<exists>part\<in>set (segments (strip_noise ?t2)). match_single part = Inr None
         then route_command ?t2 = Inr None
         else \<exists>acts. route_command ?t2 = Inr (Some \<lparr>matched = True, actions = acts\<rparr>)
                \<and> length acts = length (segments (strip_noise ?t2))
                \<and> (\<forall>i<length acts.
                      has_stop_keyword (py_lower (py_strip (segments (strip_noise ?t2) ! i)))
                      \<longrightarrow> acts ! i = stop_action)"
    by (elim conjE) (erule mp)
  with e have "\<exists>acts. route_command ?t2 = Inr (Some \<lparr>matched = True, actions = acts\<rparr>)
                \<and> length acts = length (segments (strip_noise ?t2))
                \<and> (\<forall>i<length acts.
                      has_stop_keyword (py_lower (py_strip (segments (strip_noise ?t2) ! i)))
                      \<longrightarrow> acts ! i = stop_action)"
    by (simp only: if_False)
  then obtain acts where r: "route_command ?t2 = Inr (Some \<lparr>matched = True, actions = acts\<rparr>)"
    and l: "length acts = length (segments (strip_noise ?t2))"
    and s: "\<forall>i<length acts.
              has_stop_keyword (py_lower (py_strip (segments (strip_noise ?t2) ! i)))
                      \<longrightarrow> acts ! i = stop_action"
    by (elim exE conjE)
  from l have l2: "length acts = 2" unfolding w2_seg by simp
  from s l2 d have "acts ! 1 = stop_action" by simp
  with r l2 have 3: "\<exists>acts. route_command ?t2 = Inr (Some \<lparr>matched = True, actions = acts\<rparr>)
          \<and> length acts = 2 \<and> acts ! 1 = stop_action" by blast
  from a b 1 2 c d 3 show ?thesis by (intro conjI)
qed


subsection \<open>Turn phrases and word numbers\<close>

text \<open>
  Claim C5. The phrases "da una vuelta completa" and "da media vuelta" should resolve to a
  turn of 360 and of 180 degrees. No rule of the table is triggered by either phrase (the
  turn rules need a turn verb or a direction word), so the refinement of the angle by
  \<open>FULL_TURN\<close> and \<open>HALF_TURN\<close> is never reached and the router returns \<open>None\<close>.
\<close>

theorem full_turn_phrase_unrouted:
  "route_command (asc ''da una vuelta completa'') = Inr None
   \<and> route_command (asc ''da media vuelta'') = Inr None"
  by (simp add: char_tables regex_eval router_patterns router_eval)

text \<open>
  Claim C6. A quantity written as a word before "metros" should be read through the
  word-number table. The group of \<open>METERS_PATTERN\<close> starts at the first word character of
  the segment, so it captures "avanza dos" and "avanza medio", which are not entries of
  the table and hold no digit: the distance stays at the default 1.
\<close>

theorem word_quantity_not_extracted:
  "route_command (asc ''avanza dos metros y gira a la derecha'') =
     Inr (Some \<lparr>matched = True, actions =
       [\<lparr>action = ''move'',
          params = [(''direction'', VStr ''forward''), (''distance'', VNum (PInt 1))],
          confirmation = asc ''Avanzando''\<rparr>,
        \<lparr>action = ''turn'',
          params = [(''direction'', VStr ''right''), (''angle'', VNum (PInt 90))],
          confirmation = asc ''Girando a la derecha''\<rparr>]\<rparr>)
   \<and> route_command (asc ''avanza medio metro'') =
     Inr (Some \<lparr>matched = True, actions =
       [\<lparr>action = ''move'',
          params = [(''direction'', VStr ''forward''), (''distance'', VNum (PInt 1))],
          confirmation = asc ''Avanzando''\<rparr>]\<rparr>)"
  by (simp add: char_tables regex_eval router_patterns router_eval)


subsection \<open>No exception, and the unresolved inputs\<close>

lemma route_command_none: "route_command t = Inr None \<longleftrightarrow> unresolved t"
proof (cases "strip_noise t = []")
  case True
  then show ?thesis by (simp add: route_command_def unresolved_def Let_def)
next
  case ne: False
  show ?thesis
  proof (cases "1 < length (segments (strip_noise t))")
    case True
    with ne show ?thesis
      using match_parts_result [of "segments (strip_noise t)" "[]"]
      by (simp add: route_command_def unresolved_def Let_def match_single_none)
  next
    case False
    from match_single_total obtain r where r: "match_single (strip_noise t) = Inr r" by blast
    have "route_command t = Inr None \<longleftrightarrow> match_single (strip_noise t) = Inr None"
      using ne False r by (cases r) (simp_all add: route_command_def Let_def)
    with ne False show ?thesis
      by (simp add: unresolved_def Let_def match_single_none)
  qed
qed

lemma route_examples:
  "route_command [] = Inr None"
  "route_command (asc ''   '') = Inr None"
  "route_command (asc ''cu'' @ [225] @ asc ''l es la capital de Francia'') = Inr None"
  by (simp_all add: char_tables regex_eval router_patterns router_eval)

text \<open>
  Claim C7. \<open>route_command\<close> raises on no input: it always returns a value. It returns
  \<open>None\<close> exactly for the inputs that no deterministic rule resolves (nothing is left after
  the filler words are removed, or a segment of a compound utterance matches no rule, or
  the single segment matches no rule). The empty string, a whitespace-only string and
  "cual es la capital de Francia" (with its accented a) all give \<open>None\<close>.
\<close>

theorem route_command_never_raises:
  "(\<exists>r. route_command t = Inr r)
   \<and> (route_command t = Inr None \<longleftrightarrow> unresolved t)
   \<and> route_command [] = Inr None
   \<and> route_command (asc ''   '') = Inr None
   \<and> route_command (asc ''cu'' @ [225] @ asc ''l es la capital de Francia'') = Inr None"
  using route_command_total [of t] route_command_none [of t] route_examples by blast

lemma canta_unresolved: "unresolved (asc ''canta'')"
  by (simp add: unresolved_def no_rule_def char_tables regex_eval router_patterns router_eval)

theorem route_command_never_raises_witness:
  "unresolved (asc ''canta'') \<and> route_command (asc ''canta'') = Inr None"
  using route_command_never_raises [of "asc ''canta''"] canta_unresolved by blast

subsection \<open>Letter case\<close>

text \<open>
  Claim C10, counterexample. In "avanza Irobot dos metros", written with the capital I with a
  dot above (U+0130), that letter is a word character, so "robot" is not a word of its own and stays; the
  captured quantity is not a word number and the distance stays 1. Lower-casing the input
  turns U+0130 into "i" followed by the combining dot U+0307, which is not a word character:
  "robot" is now removed as a filler word, the captured quantity is "dos", and the distance
  is 2.
\<close>

theorem case_variant_counterexample:
  "route_command (asc ''avanza '' @ [304] @ asc ''robot dos metros'') =
     Inr (Some \<lparr>matched = True, actions =
       [\<lparr>action = ''move'',
          params = [(''direction'', VStr ''forward''), (''distance'', VNum (PInt 1))],
          confirmation = asc ''Avanzando''\<rparr>]\<rparr>)
   \<and> route_command (py_lower (asc ''avanza '' @ [304] @ asc ''robot dos metros'')) =
     Inr (Some \<lparr>matched = True, actions =
       [\<lparr>action = ''move'',
          params = [(''direction'', VStr ''forward''), (''distance'', VNum (PInt 2))],
          confirmation = asc ''Avanzando''\<rparr>]\<rparr>)"
  by (simp add: char_tables regex_eval router_patterns router_eval)



section \<open>Segmenter: reasoning blocks\<close>

text \<open>
  Claim C2. No text between a reasoning delimiter and its closing delimiter should be
  emitted. When a token closes one reasoning block and opens a second one, the segmenter
  removes the closed block, leaves the suppressed state, and emits the text of the second
  block, delimiters included, at the next sentence boundary and at the end of the stream.
\<close>

theorem second_think_block_leaks:
  "generate_stream [asc ''<think>a</think><think>b. '', asc ''c</think>'']
     = [asc ''<think>b.'', asc ''c</think>'']
   \<and> generate_stream [asc ''<think>a</think><think>b''] = [asc ''<think>b'']"
  by (simp add: char_tables regex_eval segmenter_eval)

section \<open>Segmenter: sentence boundaries\<close>

lemma contains_sublist: "contains sub s = sublist sub s"
  by (induction s) (simp_all add: sublist_Cons_right)

lemma not_contains_prefix: "\<not> contains sub (a @ b) \<Longrightarrow> \<not> contains sub a"
  unfolding contains_sublist by (metis sublist_order.order_trans sublist_append_rightI)

lemma not_contains_suffix: "\<not> contains sub (a @ b) \<Longrightarrow> \<not> contains sub b"
  unfolding contains_sublist by (metis sublist_order.order_trans sublist_append_leftI)

lemma not_contains_dropWhile:
  "\<not> contains sub (a @ b) \<Longrightarrow> \<not> contains sub (dropWhile P a @ b)"
proof -
  have "sublist (dropWhile P a @ b) (a @ b)"
    by (metis append.assoc sublist_append_leftI takeWhile_dropWhile_id)
  then show "\<not> contains sub (a @ b) \<Longrightarrow> \<not> contains sub (dropWhile P a @ b)"
    unfolding contains_sublist by (metis sublist_order.order_trans)
qed

lemma hd_star_greedy:
  "\<exists>q qs. star_greedy ic k p xs = q # qs \<and> snd q = dropWhile (cmatch ic k) xs"
proof (induction xs arbitrary: p)
  case Nil
  then show ?case by simp
next
  case (Cons x xs)
  show ?case
  proof (cases "cmatch ic k x")
    case True
    from Cons.IH [of "Some x"] obtain q qs where
      "star_greedy ic k (Some x) xs = q # qs" "snd q = dropWhile (cmatch ic k) xs" by blast
    with True show ?thesis by simp
  next
    case False
    then show ?thesis by simp
  qed
qed

lemma mark_or_newline_here:
  "match_here False (Alt (Seq (Cls (OneOf K)) (Star Space)) (Cls (Ch 10))) p (x # xs) =
     (if x \<in> set K then Some (Suc (length xs) - length (dropWhile is_space xs), None)
      else if x = 10 then Some (1, None) else None)"
proof -
  have sp: "cmatch False Space = is_space" by (simp add: fun_eq_iff)
  from hd_star_greedy [of False Space "Some x" xs] obtain q qs where
    q: "star_greedy False Space (Some x) xs = q # qs" "snd q = dropWhile is_space xs"
    unfolding sp by blast
  show ?thesis
  proof (cases "x \<in> set K")
    case True
    then have "rmatch False (Seq (Cls (OneOf K)) (Star Space)) (p, x # xs, None)
                 = map (with_group None) (q # qs)"
      by (simp add: one_char_def with_group_def q)
    then show ?thesis using True q(2) by (simp add: match_here_def with_group_def)
  next
    case False
    then have "rmatch False (Seq (Cls (OneOf K)) (Star Space)) (p, x # xs, None) = []"
      by (simp add: one_char_def)
    then show ?thesis using False by (simp add: match_here_def one_char_def with_group_def)
  qed
qed

lemma boundary_char_iff:
  "boundary_char x \<longleftrightarrow> x \<in> set (asc ''.!?;'' @ [12290]) \<or> x = 10"
  by (auto simp: boundary_char_def)

lemma newline_not_mark: "10 \<notin> set (asc ''.!?;'' @ [12290])"
  by (simp add: asc_def)

lemma sentence_end_here:
  "match_here (fst SENTENCE_END) (snd SENTENCE_END) p [] = None"
  "match_here (fst SENTENCE_END) (snd SENTENCE_END) p (x # xs) =
     (if boundary_char x
      then Some (Suc (length xs) - length (after_boundary x xs), None)
      else None)"
proof -
  show "match_here (fst SENTENCE_END) (snd SENTENCE_END) p [] = None"
    by (simp add: SENTENCE_END_def match_here_def one_char_def)
  have "x = 10 \<Longrightarrow> x \<notin> set (asc ''.!?;'' @ [12290])" using newline_not_mark by blast
  then show "match_here (fst SENTENCE_END) (snd SENTENCE_END) p (x # xs) =
     (if boundary_char x
      then Some (Suc (length xs) - length (after_boundary x xs), None)
      else None)"
    unfolding SENTENCE_END_def fst_conv snd_conv mark_or_newline_here boundary_char_iff
      after_boundary_def
    by auto
qed

lemma sentence_end_search_none:
  "\<not> has_boundary s \<Longrightarrow> search_at (fst SENTENCE_END) (snd SENTENCE_END) i p s = None"
  by (induction s arbitrary: i p) (simp_all add: sentence_end_here has_boundary_def)

lemma sentence_end_search_some:
  assumes "\<not> has_boundary pre" "boundary_char d"
  shows "search_at (fst SENTENCE_END) (snd SENTENCE_END) i p (pre @ d # post)
           = Some (i + length pre,
                   i + length pre + (Suc (length post) - length (after_boundary d post)), None)"
  using assms(1)
proof (induction pre arbitrary: i p)
  case Nil
  then show ?case using assms(2) by (simp add: sentence_end_here)
next
  case (Cons x pre)
  then show ?case by (simp add: sentence_end_here has_boundary_def)
qed

lemma check_boundary_none: "\<not> has_boundary b \<Longrightarrow> check_boundary b = (b, [])"
  by (simp add: check_boundary_def re_search_def search_def sentence_end_search_none)

lemma length_after_boundary: "length (after_boundary d post) \<le> length post"
  by (simp add: after_boundary_def length_dropWhile_le)

lemma after_boundary_split:
  "\<exists>ws. post = ws @ after_boundary d post \<and> (\<forall>c\<in>set ws. is_space c)
        \<and> length post - length (after_boundary d post) = length ws"
proof (cases "d = 10")
  case True
  then show ?thesis by (simp add: after_boundary_def)
next
  case False
  let ?ws = "takeWhile is_space post"
  have 1: "post = ?ws @ after_boundary d post" using False by (simp add: after_boundary_def)
  have 2: "\<forall>c\<in>set ?ws. is_space c" by (auto dest: set_takeWhileD)
  have "length post = length ?ws + length (after_boundary d post)"
    using False unfolding after_boundary_def
    by (simp only: length_append [symmetric] takeWhile_dropWhile_id if_False)
  then have 3: "length post - length (after_boundary d post) = length ?ws" by simp
  from 1 2 3 show ?thesis by blast
qed

lemma rstrip_spaces: "\<forall>c\<in>set ws. is_space c \<Longrightarrow> rstrip (a @ ws) = rstrip a"
proof -
  assume "\<forall>c\<in>set ws. is_space c"
  then have "\<And>x. x \<in> set (rev ws) \<Longrightarrow> is_space x" by simp
  then have "dropWhile is_space (rev ws @ rev a) = dropWhile is_space (rev a)"
    by (rule dropWhile_append2)
  then show ?thesis by (simp add: rstrip_def)
qed


lemma py_strip_spaces: "\<forall>c\<in>set ws. is_space c \<Longrightarrow> py_strip (a @ b @ ws) = py_strip (a @ b)"
proof -
  assume ws: "\<forall>c\<in>set ws. is_space c"
  show ?thesis
  proof (cases "\<forall>c\<in>set (a @ b). is_space c")
    case True
    then have "\<forall>c\<in>set (a @ b @ ws). is_space c" using ws by auto
    then have "lstrip (a @ b @ ws) = []" unfolding lstrip_def by (simp only: dropWhile_eq_Nil_conv)
    moreover from True have "lstrip (a @ b) = []"
      unfolding lstrip_def by (simp only: dropWhile_eq_Nil_conv)
    ultimately show ?thesis by (simp add: py_strip_def)
  next
    case False
    then obtain x where "x \<in> set (a @ b)" "\<not> is_space x" by blast
    then have "dropWhile is_space ((a @ b) @ ws) = dropWhile is_space (a @ b) @ ws"
      by (rule dropWhile_append1)
    then show ?thesis using rstrip_spaces [OF ws] by (simp add: py_strip_def lstrip_def)
  qed
qed

lemma lstrip_dropWhile: "lstrip (dropWhile is_space a @ b) = lstrip (a @ b)"
proof (cases "\<forall>c\<in>set a. is_space c")
  case True
  then have 1: "dropWhile is_space a = []" by (simp only: dropWhile_eq_Nil_conv)
  from True have "\<And>x. x \<in> set a \<Longrightarrow> is_space x" by blast
  then have 2: "dropWhile is_space (a @ b) = dropWhile is_space b"
    by (rule dropWhile_append2)
  show ?thesis unfolding lstrip_def 1 2 by simp
next
  case False
  then obtain x where "x \<in> set a" "\<not> is_space x" by blast
  then have 1: "dropWhile is_space (a @ b) = dropWhile is_space a @ b"
    by (rule dropWhile_append1)
  have "dropWhile is_space (dropWhile is_space a @ b) = dropWhile is_space a @ b"
  proof (cases "dropWhile is_space a")
    case Nil
    then show ?thesis using False by (simp add: dropWhile_eq_Nil_conv)
  next
    case (Cons y ys)
    then have "\<not> is_space y" by (metis hd_dropWhile list.sel(1) list.distinct(1))
    with Cons show ?thesis by simp
  qed
  then show ?thesis unfolding lstrip_def 1 .
qed

lemma py_strip_dropWhile: "py_strip (dropWhile is_space a @ b) = py_strip (a @ b)"
  by (simp add: py_strip_def lstrip_dropWhile)

lemma py_strip_after_boundary: "py_strip (after_boundary d post @ r) = py_strip (post @ r)"
  by (simp add: after_boundary_def py_strip_dropWhile)

lemma check_boundary_some:
  assumes "\<not> has_boundary pre" "boundary_char d"
  shows "check_boundary (pre @ d # post)
           = (after_boundary d post,
              if py_strip (pre @ [d]) \<noteq> [] then [py_strip (pre @ [d])] else [])"
proof -
  from after_boundary_split [of post d] obtain ws where
    ws: "post = ws @ after_boundary d post" "\<forall>c\<in>set ws. is_space c"
        "length post - length (after_boundary d post) = length ws" by blast
  have e: "Suc (length post) - length (after_boundary d post) = Suc (length ws)"
    using ws(3) length_after_boundary [of d post] by simp
  have s: "re_search SENTENCE_END (pre @ d # post)
             = Some (length pre, length pre + Suc (length ws), None)"
    using sentence_end_search_some [OF assms, of 0 None post]
    by (simp add: re_search_def search_def e)
  have "pre @ d # post = (pre @ d # ws) @ after_boundary d post" using ws(1) by simp
  then have t: "take (length pre + Suc (length ws)) (pre @ d # post) = pre @ d # ws"
    and d: "drop (length pre + Suc (length ws)) (pre @ d # post) = after_boundary d post"
    by (metis append_eq_conv_conj length_Cons length_append)+
  have "py_strip (pre @ [d] @ ws) = py_strip (pre @ [d])" using ws(2) by (rule py_strip_spaces)
  then have p: "py_strip (pre @ d # ws) = py_strip (pre @ [d])" by simp
  show ?thesis unfolding check_boundary_def s
    by (simp only: Let_def fst_conv snd_conv option.case t d p)
qed

lemma feed_empty: "feed st [] = (st, [])"
  by (simp add: feed_def)

lemma feed_plain:
  assumes "tok \<noteq> []" "\<not> contains THINK_OPEN (b @ tok)"
  shows "feed (b, False) tok = ((fst (check_boundary (b @ tok)), False), snd (check_boundary (b @ tok)))"
  using assms by (simp add: feed_def Let_def)

lemma run_stream_phases: "run_stream st ts = snd (stream_loop st ts) @ final_flush (fst (stream_loop st ts))"
  by (induction ts arbitrary: st) (simp_all add: final_flush_def Let_def)

lemma loop_plain:
  assumes "\<not> has_boundary (b @ concat ts)" "\<not> contains THINK_OPEN (b @ concat ts)"
  shows "stream_loop (b, False) ts = ((b @ concat ts, False), [])"
  using assms
proof (induction ts arbitrary: b)
  case Nil
  then show ?case by simp
next
  case (Cons tok ts)
  show ?case
  proof (cases "tok = []")
    case True
    with Cons show ?thesis by (simp add: feed_empty)
  next
    case False
    from Cons.prems have nb: "\<not> has_boundary (b @ tok)" by (auto simp: has_boundary_def)
    from Cons.prems(2) have "\<not> contains THINK_OPEN ((b @ tok) @ concat ts)" by simp
    then have nt: "\<not> contains THINK_OPEN (b @ tok)" by (rule not_contains_prefix)
    have f: "feed (b, False) tok = ((b @ tok, False), [])"
      using feed_plain [OF False nt] check_boundary_none [OF nb] by simp
    from Cons.IH [of "b @ tok"] Cons.prems
    have "stream_loop (b @ tok, False) ts = (((b @ tok) @ concat ts, False), [])" by simp
    with f show ?thesis by simp
  qed
qed

text \<open>
  Claim C8. For a stream whose text holds no sentence-boundary character and no opening
  reasoning delimiter, and is not empty after trimming: the loop over the stream yields
  nothing, and the flush at the end of the stream yields exactly one sentence, the
  trimmed concatenation of the whole stream.
\<close>

theorem unterminated_stream_one_sentence:
  assumes "\<not> has_boundary (concat ts)"
    and "\<not> contains THINK_OPEN (concat ts)"
    and "py_strip (concat ts) \<noteq> []"
  shows "snd (stream_loop ([], False) ts) = []
     \<and> final_flush (fst (stream_loop ([], False) ts)) = [py_strip (concat ts)]
     \<and> generate_stream ts = [py_strip (concat ts)]"
proof -
  have l: "stream_loop ([], False) ts = ((concat ts, False), [])"
    using loop_plain [of "[]" ts] assms(1,2) by simp
  have f: "final_flush (concat ts, False) = [py_strip (concat ts)]"
    using assms(3) by (simp add: final_flush_def Let_def)
  show ?thesis unfolding generate_stream_def run_stream_phases l using f by simp
qed

lemma hola_amigo:
  "\<not> has_boundary (concat [asc ''Hola'', asc '' ami'', asc ''go ''])"
  "\<not> contains THINK_OPEN (concat [asc ''Hola'', asc '' ami'', asc ''go ''])"
  "py_strip (concat [asc ''Hola'', asc '' ami'', asc ''go '']) = asc ''Hola amigo''"
  by (simp_all add: has_boundary_def boundary_char_def THINK_OPEN_def asc_def py_strip_def
      lstrip_def rstrip_def is_space_def)

theorem unterminated_stream_one_sentence_witness:
  "\<not> has_boundary (concat [asc ''Hola'', asc '' ami'', asc ''go ''])
   \<and> \<not> contains THINK_OPEN (concat [asc ''Hola'', asc '' ami'', asc ''go ''])
   \<and> py_strip (concat [asc ''Hola'', asc '' ami'', asc ''go '']) \<noteq> []
   \<and> generate_stream [asc ''Hola'', asc '' ami'', asc ''go ''] = [asc ''Hola amigo'']"
proof -
  have ne: "py_strip (concat [asc ''Hola'', asc '' ami'', asc ''go '']) \<noteq> []"
    unfolding hola_amigo(3) by (simp add: asc_def)
  from unterminated_stream_one_sentence [OF hola_amigo(1,2) ne]
  have "generate_stream [asc ''Hola'', asc '' ami'', asc ''go '']
          = [py_strip (concat [asc ''Hola'', asc '' ami'', asc ''go ''])]" by (elim conjE)
  then have "generate_stream [asc ''Hola'', asc '' ami'', asc ''go ''] = [asc ''Hola amigo'']"
    unfolding hola_amigo(3) .
  with hola_amigo(1,2) ne show ?thesis by (intro conjI)
qed

lemma run_plain:
  assumes "\<not> has_boundary (b @ concat ts)" "\<not> contains THINK_OPEN (b @ concat ts)"
  shows "run_stream (b, False) ts
           = (if py_strip (b @ concat ts) \<noteq> [] then [py_strip (b @ concat ts)] else [])"
  unfolding run_stream_phases loop_plain [OF assms] by (simp add: final_flush_def Let_def)

lemma run_one_boundary:
  assumes "b @ concat ts = pre @ d # post"
    and "\<not> has_boundary b" "\<not> has_boundary pre" "boundary_char d" "\<not> has_boundary post"
    and "\<not> contains THINK_OPEN (pre @ d # post)"
  shows "run_stream (b, False) ts
           = (if py_strip (pre @ [d]) \<noteq> [] then [py_strip (pre @ [d])] else [])
             @ (if py_strip post \<noteq> [] then [py_strip post] else [])"
  using assms(1,2)
proof (induction ts arbitrary: b)
  case Nil
  then have "has_boundary b" using assms(4) by (simp add: has_boundary_def)
  with Nil show ?case by simp
next
  case (Cons tok ts)
  show ?case
  proof (cases "tok = []")
    case True
    with Cons show ?thesis by (simp add: feed_empty)
  next
    case ne: False
    from Cons.prems(1) have whole: "(b @ tok) @ concat ts = pre @ d # post" by simp
    from assms(6) have "\<not> contains THINK_OPEN ((b @ tok) @ concat ts)" using whole by simp
    then have nt: "\<not> contains THINK_OPEN (b @ tok)" by (rule not_contains_prefix)
    show ?thesis
    proof (cases "has_boundary (b @ tok)")
      case False
      have f: "feed (b, False) tok = ((b @ tok, False), [])"
        using feed_plain [OF ne nt] check_boundary_none [OF False] by simp
      from Cons.IH [OF whole False] f show ?thesis by simp
    next
      case True
      from whole obtain us where
        "(b @ tok = pre @ us \<and> us @ concat ts = d # post)
         \<or> ((b @ tok) @ us = pre \<and> concat ts = us @ d # post)"
        unfolding append_eq_append_conv2 by blast
      moreover have "\<not> ((b @ tok) @ us = pre \<and> concat ts = us @ d # post)"
        using True assms(3) by (auto simp: has_boundary_def)
      moreover have "us \<noteq> []" if "b @ tok = pre @ us" using that True assms(3) by auto
      ultimately obtain post1 where bt: "b @ tok = pre @ d # post1" and po: "post = post1 @ concat ts"
        by (cases us) auto
      have f: "feed (b, False) tok =
          ((after_boundary d post1, False),
           if py_strip (pre @ [d]) \<noteq> [] then [py_strip (pre @ [d])] else [])"
        using feed_plain [OF ne nt] check_boundary_some [OF assms(3,4), of post1]
        unfolding bt by simp
      have "set (after_boundary d post1) \<subseteq> set post1"
        by (auto simp: after_boundary_def dest: set_dropWhileD)
      then have nb: "\<not> has_boundary (after_boundary d post1 @ concat ts)"
        using assms(5) po by (auto simp: has_boundary_def)
      from assms(6) have "\<not> contains THINK_OPEN ((pre @ [d]) @ post1 @ concat ts)"
        using po by simp
      then have "\<not> contains THINK_OPEN (post1 @ concat ts)" by (rule not_contains_suffix)
      then have nt2: "\<not> contains THINK_OPEN (after_boundary d post1 @ concat ts)"
        unfolding after_boundary_def using not_contains_dropWhile by simp
      have "run_stream (after_boundary d post1, False) ts
              = (if py_strip post \<noteq> [] then [py_strip post] else [])"
        unfolding run_plain [OF nb nt2] py_strip_after_boundary po ..
      with f show ?thesis by simp
    qed
  qed
qed

lemma subseq_py_strip: "subseq (py_strip s) s"
proof -
  have "suffix (dropWhile is_space (rev (lstrip s))) (rev (lstrip s))" by (rule suffix_dropWhile)
  then have "prefix (rstrip (lstrip s)) (lstrip s)"
    unfolding rstrip_def suffix_to_prefix by simp
  then have 1: "subseq (py_strip s) (lstrip s)" unfolding py_strip_def by (rule prefix_imp_subseq)
  have "suffix (lstrip s) s" unfolding lstrip_def by (rule suffix_dropWhile)
  then have 2: "subseq (lstrip s) s" by (rule suffix_imp_subseq)
  from 1 2 show ?thesis by (rule subseq_order.order_trans)
qed

lemma subseq_sub_scan: "subseq (sub_scan ic r k p s) s"
proof (induction ic r k p s rule: sub_scan.induct)
  case (1 ic r k p)
  then show ?case by simp
next
  case (2 ic r k p x xs)
  then show ?case by (simp add: list_emb_Cons)
next
  case (3 ic r p x xs)
  then show ?case by (auto simp: list_emb_Cons split: option.splits nat.splits)
qed

lemma subseq_check_boundary:
  "subseq (concat (snd (check_boundary b)) @ fst (check_boundary b)) b"
proof (cases "re_search SENTENCE_END b")
  case None
  then show ?thesis by (simp add: check_boundary_def)
next
  case (Some m)
  let ?e = "fst (snd m)"
  have "subseq (py_strip (take ?e b) @ drop ?e b) (take ?e b @ drop ?e b)"
    by (intro list_emb_append_mono subseq_py_strip) simp
  then have 1: "subseq (py_strip (take ?e b) @ drop ?e b) b" by simp
  have 2: "subseq (drop ?e b) b" by (intro suffix_imp_subseq suffix_drop)
  show ?thesis using Some 1 2 by (simp add: check_boundary_def Let_def)
qed

lemma subseq_feed:
  "subseq (concat (snd (feed (b, f) tok)) @ fst (fst (feed (b, f) tok))) (b @ tok)"
proof -
  let ?c = "re_sub_empty (fst THINK_PATTERN) (snd THINK_PATTERN) (b @ tok)"
  have c: "subseq ?c (b @ tok)" unfolding re_sub_empty_def by (rule subseq_sub_scan)
  have "subseq (concat (snd (check_boundary ?c)) @ fst (check_boundary ?c)) (b @ tok)"
    using subseq_check_boundary [of ?c] c by (rule subseq_order.order_trans)
  then show ?thesis using subseq_check_boundary [of "b @ tok"]
    by (simp add: feed_def Let_def)
qed

lemma subseq_run_stream: "subseq (concat (run_stream (b, f) ts)) (b @ concat ts)"
proof (induction ts arbitrary: b f)
  case Nil
  then show ?case using subseq_py_strip [of b] by (simp add: Let_def)
next
  case (Cons tok ts)
  obtain b' f' out where r: "feed (b, f) tok = ((b', f'), out)"
    by (metis prod.collapse)
  from subseq_feed [of b f tok] r have 1: "subseq (concat out @ b') (b @ tok)" by simp
  from Cons.IH [of b' f'] have "subseq (concat out @ concat (run_stream (b', f') ts))
      (concat out @ b' @ concat ts)" by (simp add: subseq_append')
  moreover from 1 have "subseq ((concat out @ b') @ concat ts) ((b @ tok) @ concat ts)"
    by (rule list_emb_append_mono) simp
  ultimately have "subseq (concat out @ concat (run_stream (b', f') ts)) ((b @ tok) @ concat ts)"
    by (simp add: subseq_order.order_trans)
  then show ?case using r by (simp add: Let_def)
qed

lemma hola_adios:
  "\<not> has_boundary (asc ''Hola'')"
  "boundary_char 46"
  "\<not> has_boundary (asc '' Adi'' @ [243] @ asc ''s'')"
  "\<not> contains THINK_OPEN (asc ''Hola'' @ 46 # asc '' Adi'' @ [243] @ asc ''s'')"
  "py_strip (asc ''Hola'' @ [46]) = asc ''Hola.''"
  "py_strip (asc '' Adi'' @ [243] @ asc ''s'') = asc ''Adi'' @ [243] @ asc ''s''"
  "asc ''Hola. Adi'' @ [243] @ asc ''s'' = asc ''Hola'' @ 46 # asc '' Adi'' @ [243] @ asc ''s''"
  by (simp_all add: has_boundary_def boundary_char_def THINK_OPEN_def asc_def py_strip_def
      lstrip_def rstrip_def is_space_def)

text \<open>
  Claim C4. Every stream of tokens that spells "Hola. Adios" (with its accented o)
  yields exactly the two sentences "Hola." and "Adios", in that order, however the text is
  cut into tokens. For every stream, the sentences yielded, taken in the order of emission,
  are successive pieces of the generated text: their concatenation is a subsequence of it,
  so the order of emission is the order of generation and no piece of text is emitted
  twice.
\<close>

theorem sentences_in_generation_order:
  "(concat ts = asc ''Hola. Adi'' @ [243] @ asc ''s''
      \<longrightarrow> generate_stream ts = [asc ''Hola.'', asc ''Adi'' @ [243] @ asc ''s''])
   \<and> subseq (concat (generate_stream ts)) (concat ts)"
proof (intro conjI impI)
  assume "concat ts = asc ''Hola. Adi'' @ [243] @ asc ''s''"
  then have c: "[] @ concat ts = asc ''Hola'' @ 46 # asc '' Adi'' @ [243] @ asc ''s''"
    unfolding hola_adios(7) by simp
  have e: "\<not> has_boundary []" by (simp add: has_boundary_def)
  have "run_stream ([], False) ts = [asc ''Hola.'', asc ''Adi'' @ [243] @ asc ''s'']"
    unfolding run_one_boundary [OF c e hola_adios(1,2,3,4)] hola_adios(5,6)
    by (simp add: asc_def)
  then show "generate_stream ts = [asc ''Hola.'', asc ''Adi'' @ [243] @ asc ''s'']"
    by (simp add: generate_stream_def)
next
  show "subseq (concat (generate_stream ts)) (concat ts)"
    using subseq_run_stream [of "[]" False ts] by (simp add: generate_stream_def)
qed

theorem sentences_in_generation_order_witness:
  "concat [asc ''Ho'', asc ''la. A'', asc ''di'' @ [243], asc ''s''] = asc ''Hola. Adi'' @ [243] @ asc ''s''
   \<and> generate_stream [asc ''Ho'', asc ''la. A'', asc ''di'' @ [243], asc ''s'']
       = [asc ''Hola.'', asc ''Adi'' @ [243] @ asc ''s'']"
proof -
  have c: "concat [asc ''Ho'', asc ''la. A'', asc ''di'' @ [243], asc ''s'']
             = asc ''Hola. Adi'' @ [243] @ asc ''s''" by (simp add: asc_def)
  from sentences_in_generation_order [of "[asc ''Ho'', asc ''la. A'', asc ''di'' @ [243], asc ''s'']"]
  have "concat [asc ''Ho'', asc ''la. A'', asc ''di'' @ [243], asc ''s''] = asc ''Hola. Adi'' @ [243] @ asc ''s''
      \<longrightarrow> generate_stream [asc ''Ho'', asc ''la. A'', asc ''di'' @ [243], asc ''s'']
       = [asc ''Hola.'', asc ''Adi'' @ [243] @ asc ''s'']" by (elim conjE)
  with c show ?thesis by blast
qed


section \<open>Conversation: the sliding window\<close>

lemma deque_append_last_n:
  "length d \<le> n \<Longrightarrow> deque_append n x d = last_n n (d @ [x])"
  by (cases d) (auto simp: deque_append_def last_n_def Let_def Suc_diff_le)

lemma length_last_n: "length (last_n n xs) \<le> n"
  by (simp add: last_n_def)

lemma last_n_append: "last_n n (last_n n xs @ ys) = last_n n (xs @ ys)"
  by (cases "length xs \<le> n") (auto simp: last_n_def add.commute)

lemma last_n_id: "length xs \<le> n \<Longrightarrow> last_n n xs = xs"
  by (simp add: last_n_def)

lemma load_bounded:
  "length d \<le> n \<Longrightarrow> length (foldl (\<lambda>d item. deque_append n item d) d loaded) \<le> n"
proof (induction loaded arbitrary: d)
  case Nil
  then show ?case by simp
next
  case (Cons x xs)
  have "length (deque_append n x d) \<le> n"
    using Cons.prems by (simp add: deque_append_last_n length_last_n)
  then show ?case using Cons.IH by simp
qed

lemma add_exchange_history:
  assumes "length (history c) \<le> maxlen c"
  shows "history (add_exchange u a c) = last_n (maxlen c) (history c @ exchange u a)"
proof -
  let ?n = "maxlen c"
  let ?tu = "\<lparr>role = ''user'', content = u\<rparr>"
  let ?ta = "\<lparr>role = ''assistant'', content = a\<rparr>"
  have 1: "deque_append ?n ?tu (history c) = last_n ?n (history c @ [?tu])"
    using assms by (rule deque_append_last_n)
  have "deque_append ?n ?ta (last_n ?n (history c @ [?tu]))
          = last_n ?n (last_n ?n (history c @ [?tu]) @ [?ta])"
    by (rule deque_append_last_n) (rule length_last_n)
  also have "\<dots> = last_n ?n ((history c @ [?tu]) @ [?ta])" by (rule last_n_append)
  finally show ?thesis by (simp add: add_exchange_def 1 exchange_def)
qed

lemma apply_op_inv:
  assumes "length (history c) \<le> maxlen c"
  shows "maxlen (apply_op c op) = maxlen c \<and> length (history (apply_op c op)) \<le> maxlen c"
proof (cases op)
  case (AddExchange u a)
  have "maxlen (add_exchange u a c) = maxlen c" by (simp add: add_exchange_def)
  moreover have "length (history (add_exchange u a c)) \<le> maxlen c"
    unfolding add_exchange_history [OF assms] by (rule length_last_n)
  ultimately show ?thesis using AddExchange by simp
next
  case Clear
  then show ?thesis by (simp add: clear_def)
qed

lemma run_ops_inv:
  assumes "length (history c) \<le> maxlen c"
  shows "maxlen (run_ops c ops) = maxlen c \<and> length (history (run_ops c ops)) \<le> maxlen c"
proof (induction ops rule: rev_induct)
  case Nil
  then show ?case using assms by (simp add: run_ops_def)
next
  case (snoc op ops)
  then show ?case using apply_op_inv [of "run_ops c ops" op] by (simp add: run_ops_def)
qed

lemma run_ops_history:
  assumes "history c = []"
  shows "history (run_ops c ops) = last_n (maxlen c) (turns_since_clear ops)"
proof (induction ops rule: rev_induct)
  case Nil
  then show ?case using assms by (simp add: run_ops_def turns_since_clear_def last_n_def)
next
  case (snoc op ops)
  from assms have inv: "maxlen (run_ops c ops) = maxlen c"
      "length (history (run_ops c ops)) \<le> maxlen (run_ops c ops)"
    using run_ops_inv [of c ops] by simp_all
  show ?case
  proof (cases op)
    case (AddExchange u a)
    have "history (run_ops c (ops @ [op])) = history (add_exchange u a (run_ops c ops))"
      using AddExchange by (simp add: run_ops_def)
    also have "\<dots> = last_n (maxlen c) (history (run_ops c ops) @ exchange u a)"
      using add_exchange_history [OF inv(2), of u a] inv(1) by simp
    also have "\<dots> = last_n (maxlen c) (turns_since_clear ops @ exchange u a)"
      by (simp add: snoc.IH last_n_append)
    finally show ?thesis using AddExchange by (simp add: turns_since_clear_def)
  next
    case Clear
    then show ?thesis by (simp add: run_ops_def turns_since_clear_def clear_def last_n_def)
  qed
qed

text \<open>
  Claim C9. For a conversation built by the constructor and then driven by any sequence
  of \<open>add_exchange\<close> and \<open>clear\<close> operations: the history holds at most
  \<open>max_turns\<close> pairs, that is \<open>2 * max_turns\<close> turns; \<open>add_exchange\<close> appends the
  user turn and then the assistant turn and keeps the most recent \<open>2 * max_turns\<close> turns,
  in order (the oldest are evicted first); and, starting from an empty history, the stored
  history is the most recent \<open>2 * max_turns\<close> turns recorded since the last clear.
\<close>

theorem history_sliding_window:
  assumes "new_conversation mt loaded = Inr c0"
  shows "length (history (run_ops c0 ops)) \<le> 2 * nat mt
     \<and> history (add_exchange u a (run_ops c0 ops))
         = last_n (2 * nat mt) (history (run_ops c0 ops) @ exchange u a)
     \<and> (loaded = [] \<longrightarrow> history (run_ops c0 ops) = last_n (2 * nat mt) (turns_since_clear ops))"
proof -
  from assms have mt: "0 \<le> mt" and c0: "maxlen c0 = 2 * nat mt"
    and h0: "history c0 = foldl (\<lambda>d item. deque_append (nat (mt * 2)) item d) [] loaded"
    by (auto simp: new_conversation_def split: if_splits)
  have "length (history c0) \<le> nat (mt * 2)" unfolding h0 by (rule load_bounded) simp
  then have b0: "length (history c0) \<le> maxlen c0" using c0 mt by simp
  from run_ops_inv [OF b0, of ops] have inv: "maxlen (run_ops c0 ops) = maxlen c0"
    "length (history (run_ops c0 ops)) \<le> maxlen (run_ops c0 ops)" by simp_all
  have 1: "length (history (run_ops c0 ops)) \<le> 2 * nat mt" using inv c0 by simp
  have 2: "history (add_exchange u a (run_ops c0 ops))
         = last_n (2 * nat mt) (history (run_ops c0 ops) @ exchange u a)"
    using add_exchange_history [OF inv(2), of u a] inv(1) c0 by simp
  have 3: "loaded = [] \<longrightarrow> history (run_ops c0 ops) = last_n (2 * nat mt) (turns_since_clear ops)"
    using run_ops_history [of c0 ops] h0 c0 by simp
  from 1 2 3 show ?thesis by blast
qed

theorem history_sliding_window_witness:
  "new_conversation 1 [] = Inr \<lparr>max_turns = 1, maxlen = 2, history = []\<rparr>
   \<and> history (run_ops \<lparr>max_turns = 1, maxlen = 2, history = []\<rparr>
        [AddExchange (asc ''hola'') (asc ''buenas''), AddExchange (asc ''avanza'') (asc ''voy'')])
      = exchange (asc ''avanza'') (asc ''voy'')"
proof -
  have n: "new_conversation 1 [] = Inr \<lparr>max_turns = 1, maxlen = 2, history = []\<rparr>"
    by (simp add: new_conversation_def)
  have "last_n (2 * nat 1) (turns_since_clear
          [AddExchange (asc ''hola'') (asc ''buenas''), AddExchange (asc ''avanza'') (asc ''voy'')])
        = exchange (asc ''avanza'') (asc ''voy'')"
    by (simp add: last_n_def turns_since_clear_def exchange_def)
  with history_sliding_window [OF n] n show ?thesis by simp
qed


end
